theory Spec2Isabelle
  imports Main
begin

section \<open>Data model of the SDN controller (sdn.py)\<close>

type_synonym node = string

text \<open>
  The topology is a \<^verbatim>\<open>networkx.Graph\<close>: a node dictionary (insertion ordered) and a
  symmetric adjacency structure holding the \<^verbatim>\<open>weight\<close> attribute of every edge. The
  adjacency is kept in both directions, as the library does.
\<close>

record graph =
  g_nodes :: "node list"
  g_adj :: "node \<times> node \<rightharpoonup> int"

text \<open>A flow is the dictionary built in \<^verbatim>\<open>inject_traffic_flow\<close>.\<close>

record flow =
  src :: node
  dst :: node
  traffic_type :: string
  bandwidth :: int
  path :: "node list"

type_synonym ledger = "node \<times> node \<rightharpoonup> int"

text \<open>The three attributes of \<^verbatim>\<open>SDNController\<close>.\<close>

record controller =
  topology :: graph
  flows :: "flow list"
  link_utilization :: ledger

text \<open>Exceptions that can travel through the controller's methods.\<close>

datatype exn = NodeNotFound | NetworkXNoPath | ValueError | KeyError

definition new_controller :: controller where
  "new_controller =
     \<lparr>topology = \<lparr>g_nodes = [], g_adj = Map.empty\<rparr>, flows = [], link_utilization = Map.empty\<rparr>"

section \<open>The graph library operations used by the controller\<close>

definition has_node :: "graph \<Rightarrow> node \<Rightarrow> bool" where
  "has_node G n = (n \<in> set (g_nodes G))"

definition has_edge :: "graph \<Rightarrow> node \<Rightarrow> node \<Rightarrow> bool" where
  "has_edge G u v = (g_adj G (u, v) \<noteq> None)"

definition graph_add_node :: "graph \<Rightarrow> node \<Rightarrow> graph" where
  "graph_add_node G n = (if has_node G n then G else G\<lparr>g_nodes := g_nodes G @ [n]\<rparr>)"

text \<open>Removing a node removes every edge incident to it.\<close>

definition graph_remove_node :: "graph \<Rightarrow> node \<Rightarrow> graph" where
  "graph_remove_node G n =
     G\<lparr>g_nodes := removeAll n (g_nodes G),
       g_adj := (\<lambda>(x, y). if x = n \<or> y = n then None else g_adj G (x, y))\<rparr>"

text \<open>Adding an edge creates missing endpoints and sets (or overwrites) the weight.\<close>

definition graph_add_edge :: "graph \<Rightarrow> node \<Rightarrow> node \<Rightarrow> int \<Rightarrow> graph" where
  "graph_add_edge G u v w =
     (let G1 = graph_add_node (graph_add_node G u) v
      in G1\<lparr>g_adj := (g_adj G1)((u, v) \<mapsto> w, (v, u) \<mapsto> w)\<rparr>)"

definition graph_remove_edge :: "graph \<Rightarrow> node \<Rightarrow> node \<Rightarrow> graph" where
  "graph_remove_edge G u v = G\<lparr>g_adj := (g_adj G)((u, v) := None, (v, u) := None)\<rparr>"

text \<open>The consecutive pairs \<^verbatim>\<open>(p[i], p[i+1])\<close> of a node sequence.\<close>

definition path_edges :: "node list \<Rightarrow> (node \<times> node) list" where
  "path_edges p = zip p (tl p)"

definition edge_weight :: "graph \<Rightarrow> node \<times> node \<Rightarrow> int" where
  "edge_weight G e = (case g_adj G e of None \<Rightarrow> 0 | Some w \<Rightarrow> w)"

text \<open>The total weight of a node sequence, the cost the library minimises.\<close>

fun path_weight :: "graph \<Rightarrow> node list \<Rightarrow> int" where
  "path_weight G (a # b # rest) = edge_weight G (a, b) + path_weight G (b # rest)"
| "path_weight G _ = 0"

text \<open>
  Enumeration of the simple paths from \<open>u\<close> to \<open>t\<close> that avoid the nodes of \<open>vis\<close>; the
  first argument bounds the number of hops still allowed.
\<close>

fun paths_upto :: "nat \<Rightarrow> graph \<Rightarrow> node list \<Rightarrow> node \<Rightarrow> node \<Rightarrow> node list list" where
  "paths_upto 0 G vis u t = (if u = t then [[u]] else [])"
| "paths_upto (Suc n) G vis u t =
     (if u = t then [[u]]
      else concat (map (\<lambda>v. map ((#) u) (paths_upto n G (v # vis) v t))
                       (filter (\<lambda>v. has_edge G u v \<and> v \<notin> set vis) (g_nodes G))))"

definition simple_paths :: "graph \<Rightarrow> node \<Rightarrow> node \<Rightarrow> node list list" where
  "simple_paths G s t = paths_upto (length (g_nodes G)) G [s] s t"

definition reachable_nodes :: "graph \<Rightarrow> node \<Rightarrow> node list" where
  "reachable_nodes G s = filter (\<lambda>x. simple_paths G s x \<noteq> []) (g_nodes G)"

text \<open>
  The library's Dijkstra search settles every node reachable from the source and relaxes
  every edge leaving a settled node; on an undirected graph a negative weight on such an
  edge makes it raise \<^verbatim>\<open>ValueError\<close> ("Contradictory paths found: negative weights?").
\<close>

definition negative_edge_seen :: "graph \<Rightarrow> node \<Rightarrow> bool" where
  "negative_edge_seen G s =
     list_ex (\<lambda>x. list_ex (\<lambda>y. case g_adj G (x, y) of None \<Rightarrow> False | Some w \<Rightarrow> w < 0)
                          (g_nodes G))
             (reachable_nodes G s)"

text \<open>
  \<^verbatim>\<open>nx.all_shortest_paths(G, source, target, weight='weight')\<close>, library code outside the
  repository, modelled by its behaviour: \<^verbatim>\<open>NodeNotFound\<close> for an absent source,
  \<^verbatim>\<open>ValueError\<close> as above, \<^verbatim>\<open>NetworkXNoPath\<close> when the target is not reached, and
  otherwise every simple path of minimum total weight, each once. The order of the
  enumeration is the library's; nothing below depends on it.
\<close>

definition all_shortest_paths :: "graph \<Rightarrow> node \<Rightarrow> node \<Rightarrow> exn + node list list" where
  "all_shortest_paths G source target =
     (if \<not> has_node G source then Inl NodeNotFound
      else if negative_edge_seen G source then Inl ValueError
      else (let ps = simple_paths G source target
            in if ps = [] then Inl NetworkXNoPath
               else Inr (filter (\<lambda>p. path_weight G p = min_list (map (path_weight G) ps)) ps)))"

section \<open>Topology operations of the controller\<close>

text \<open>The message printed on the early returns is not part of the state.\<close>

definition add_node :: "controller \<Rightarrow> node \<Rightarrow> controller" where
  "add_node c n =
     (if has_node (topology c) n then c
      else c\<lparr>topology := graph_add_node (topology c) n\<rparr>)"

definition remove_node :: "controller \<Rightarrow> node \<Rightarrow> controller" where
  "remove_node c n =
     (if \<not> has_node (topology c) n then c
      else c\<lparr>topology := graph_remove_node (topology c) n\<rparr>)"

definition add_link :: "controller \<Rightarrow> node \<Rightarrow> node \<Rightarrow> int \<Rightarrow> controller" where
  "add_link c u v w =
     (if \<not> has_node (topology c) u \<or> \<not> has_node (topology c) v then c
      else c\<lparr>topology := graph_add_edge (topology c) u v w,
             link_utilization := (link_utilization c)((u, v) \<mapsto> 0, (v, u) \<mapsto> 0)\<rparr>)"

definition remove_link :: "controller \<Rightarrow> node \<Rightarrow> node \<Rightarrow> controller" where
  "remove_link c u v =
     (if \<not> has_edge (topology c) u v then c
      else c\<lparr>topology := graph_remove_edge (topology c) u v,
             link_utilization := (link_utilization c)((u, v) := None, (v, u) := None)\<rparr>)"

section \<open>Path selection\<close>

text \<open>The sort key of \<^verbatim>\<open>compute_path\<close>: ledger values read with default 0.\<close>

fun path_utilization :: "ledger \<Rightarrow> node list \<Rightarrow> int" where
  "path_utilization lu (a # b # rest) =
     (case lu (a, b) of None \<Rightarrow> 0 | Some x \<Rightarrow> x) + path_utilization lu (b # rest)"
| "path_utilization lu _ = 0"

text \<open>
  \<^verbatim>\<open>compute_path\<close>: only \<^verbatim>\<open>NetworkXNoPath\<close> is caught; the list sort is stable, so
  \<^verbatim>\<open>paths[0]\<close> is the head of the stably sorted list.
\<close>

definition compute_path :: "controller \<Rightarrow> node \<Rightarrow> node \<Rightarrow> string \<Rightarrow> exn + node list option" where
  "compute_path c s d ty =
     (if \<not> has_node (topology c) s \<or> \<not> has_node (topology c) d then Inr None
      else (case all_shortest_paths (topology c) s d of
              Inl NetworkXNoPath \<Rightarrow> Inr None
            | Inl e \<Rightarrow> Inl e
            | Inr paths \<Rightarrow>
                if paths = [] then Inr None
                else Inr (Some (hd (sort_key (path_utilization (link_utilization c)) paths)))))"

section \<open>Flow admission\<close>

text \<open>
  The unguarded loop \<^verbatim>\<open>link_utilization[(u, v)] += bw; link_utilization[(v, u)] += bw\<close>
  over the consecutive pairs of a path. A missing key raises \<^verbatim>\<open>KeyError\<close> and leaves
  the updates made so far in place.
\<close>

fun reserve :: "ledger \<Rightarrow> node list \<Rightarrow> int \<Rightarrow> exn option \<times> ledger" where
  "reserve lu (u # v # rest) bw =
     (case lu (u, v) of
        None \<Rightarrow> (Some KeyError, lu)
      | Some x \<Rightarrow>
          (let lu1 = lu((u, v) \<mapsto> x + bw)
           in case lu1 (v, u) of
                None \<Rightarrow> (Some KeyError, lu1)
              | Some y \<Rightarrow> reserve (lu1((v, u) \<mapsto> y + bw)) (v # rest) bw))"
| "reserve lu _ bw = (None, lu)"

datatype inject_result =
  Injected "node list" | InjectNodeMissing | InjectNoRoute | InjectRaised exn

definition inject_traffic_flow ::
  "controller \<Rightarrow> node \<Rightarrow> node \<Rightarrow> string \<Rightarrow> int \<Rightarrow> inject_result \<times> controller" where
  "inject_traffic_flow c s d ty bw =
     (if \<not> has_node (topology c) s \<or> \<not> has_node (topology c) d then (InjectNodeMissing, c)
      else (case compute_path c s d ty of
              Inl e \<Rightarrow> (InjectRaised e, c)
            | Inr None \<Rightarrow> (InjectNoRoute, c)
            | Inr (Some p) \<Rightarrow>
                if p = [] then (InjectNoRoute, c)
                else (let f = \<lparr>src = s, dst = d, traffic_type = ty, bandwidth = bw, path = p\<rparr>;
                          c1 = c\<lparr>flows := flows c @ [f]\<rparr>
                      in case reserve (link_utilization c1) p bw of
                           (Some e, lu) \<Rightarrow> (InjectRaised e, c1\<lparr>link_utilization := lu\<rparr>)
                         | (None, lu) \<Rightarrow> (Injected p, c1\<lparr>link_utilization := lu\<rparr>))))"

section \<open>Link failure and rerouting\<close>

text \<open>\<^verbatim>\<open>if k in link_utilization: link_utilization[k] -= bw\<close>\<close>

definition decrement_if_present :: "ledger \<Rightarrow> node \<times> node \<Rightarrow> int \<Rightarrow> ledger" where
  "decrement_if_present lu k bw = (case lu k of None \<Rightarrow> lu | Some x \<Rightarrow> lu(k \<mapsto> x - bw))"

text \<open>The guarded decrement loop over the consecutive pairs of the old path.\<close>

fun release :: "ledger \<Rightarrow> node list \<Rightarrow> int \<Rightarrow> ledger" where
  "release lu (a # b # rest) bw =
     release (decrement_if_present (decrement_if_present lu (a, b) bw) (b, a) bw) (b # rest) bw"
| "release lu _ bw = lu"

text \<open>The two messages printed for a flow that is processed.\<close>

datatype report = Reconfigured node node "node list" | NoBackup node node

text \<open>
  Second half of the loop body: the path is computed again and, when one is found, stored
  in the flow and charged to the ledger. The result holds the exception raised (if any),
  the messages printed, the controller and the flow afterwards.
\<close>

definition readmit_flow ::
  "controller \<Rightarrow> flow \<Rightarrow> exn option \<times> report list \<times> controller \<times> flow" where
  "readmit_flow c1 f =
     (case compute_path c1 (src f) (dst f) (traffic_type f) of
        Inl e \<Rightarrow> (Some e, [], c1, f)
      | Inr None \<Rightarrow> (None, [NoBackup (src f) (dst f)], c1, f)
      | Inr (Some p) \<Rightarrow>
          if p = [] then (None, [NoBackup (src f) (dst f)], c1, f)
          else (case reserve (link_utilization c1) p (bandwidth f) of
                  (e, lu) \<Rightarrow>
                    (e, [Reconfigured (src f) (dst f) p], c1\<lparr>link_utilization := lu\<rparr>,
                     f\<lparr>path := p\<rparr>)))"

text \<open>The body of the loop over \<^verbatim>\<open>self.flows\<close> for one flow.\<close>

definition reroute_flow ::
  "node \<Rightarrow> node \<Rightarrow> controller \<Rightarrow> flow \<Rightarrow> exn option \<times> report list \<times> controller \<times> flow" where
  "reroute_flow u v c f =
     (if u \<in> set (path f) \<and> v \<in> set (path f) then
        readmit_flow
          (c\<lparr>link_utilization := release (link_utilization c) (path f) (bandwidth f)\<rparr>) f
      else (None, [], c, f))"

text \<open>The loop itself; an exception ends it and leaves the remaining flows untouched.\<close>

fun reroute_flows ::
  "node \<Rightarrow> node \<Rightarrow> controller \<Rightarrow> flow list
     \<Rightarrow> exn option \<times> report list \<times> controller \<times> flow list" where
  "reroute_flows u v c [] = (None, [], c, [])"
| "reroute_flows u v c (f # fs) =
     (case reroute_flow u v c f of
        (Some e, rs, c1, f1) \<Rightarrow> (Some e, rs, c1, f1 # fs)
      | (None, rs, c1, f1) \<Rightarrow>
          (case reroute_flows u v c1 fs of
             (e, rs', c2, fs') \<Rightarrow> (e, rs @ rs', c2, f1 # fs')))"

datatype fail_result = FailLinkNotFound | FailDone "report list" | FailRaised exn

definition simulate_link_failure ::
  "controller \<Rightarrow> node \<Rightarrow> node \<Rightarrow> fail_result \<times> controller" where
  "simulate_link_failure c u v =
     (if \<not> has_edge (topology c) u v then (FailLinkNotFound, c)
      else (let c0 = remove_link c u v
            in case reroute_flows u v c0 (flows c0) of
                 (e, rs, c1, fs) \<Rightarrow>
                   ((case e of None \<Rightarrow> FailDone rs | Some x \<Rightarrow> FailRaised x),
                    c1\<lparr>flows := fs\<rparr>)))"

text \<open>\<^verbatim>\<open>query_routing\<close> only reads the state; its result is what it prints.\<close>

datatype query_result = QueryNodeMissing | Routing "node list option" | QueryRaised exn

definition query_routing :: "controller \<Rightarrow> node \<Rightarrow> node \<Rightarrow> query_result" where
  "query_routing c s d =
     (if \<not> has_node (topology c) s \<or> \<not> has_node (topology c) d then QueryNodeMissing
      else (case compute_path c s d ''data'' of
              Inl e \<Rightarrow> QueryRaised e
            | Inr r \<Rightarrow> Routing r))"

section \<open>Command sequences\<close>

text \<open>
  The commands dispatched by \<^verbatim>\<open>main\<close>, after parsing. A run keeps the state a command
  leaves behind, also when the command raised.
\<close>

datatype command =
  AddNode node
| RemoveNode node
| AddLink node node int
| RemoveLink node node
| InjectTraffic node node string int
| SimulateLinkFailure node node
| QueryRouting node node

fun execute :: "controller \<Rightarrow> command \<Rightarrow> controller" where
  "execute c (AddNode n) = add_node c n"
| "execute c (RemoveNode n) = remove_node c n"
| "execute c (AddLink u v w) = add_link c u v w"
| "execute c (RemoveLink u v) = remove_link c u v"
| "execute c (InjectTraffic s d ty bw) = snd (inject_traffic_flow c s d ty bw)"
| "execute c (SimulateLinkFailure u v) = snd (simulate_link_failure c u v)"
| "execute c (QueryRouting s d) = c"

definition run :: "command list \<Rightarrow> controller" where
  "run cmds = foldl execute new_controller cmds"

section \<open>Notions used to state the properties\<close>

text \<open>A walk from \<open>s\<close> to \<open>d\<close>: a non-empty sequence of nodes joined by edges.\<close>

definition walk :: "graph \<Rightarrow> node \<Rightarrow> node \<Rightarrow> node list \<Rightarrow> bool" where
  "walk G s d p =
     (p \<noteq> [] \<and> hd p = s \<and> last p = d \<and> set p \<subseteq> set (g_nodes G) \<and>
      list_all (\<lambda>(a, b). has_edge G a b) (path_edges p))"

text \<open>
  The release of a path as the specification words it: every existing entry loses the
  bandwidth once for each time it is an edge of the path, in either direction; absent
  entries stay absent.
\<close>

definition released :: "ledger \<Rightarrow> node list \<Rightarrow> int \<Rightarrow> ledger" where
  "released lu p bw =
     (\<lambda>k. case lu k of
            None \<Rightarrow> None
          | Some x \<Rightarrow>
              Some (x - bw * int (count_list (path_edges p @ map prod.swap (path_edges p)) k)))"

fun report_endpoints :: "report \<Rightarrow> node \<times> node" where
  "report_endpoints (Reconfigured s d p) = (s, d)"
| "report_endpoints (NoBackup s d) = (s, d)"



text \<open>A ledger whose existing entries are changed by the given amounts.\<close>

definition adjusted :: "ledger \<Rightarrow> (node \<times> node \<Rightarrow> int) \<Rightarrow> ledger" where
  "adjusted lu delta = (\<lambda>k. case lu k of None \<Rightarrow> None | Some x \<Rightarrow> Some (x + delta k))"





text \<open>Commands other than link failure, with a bandwidth that is not negative.\<close>

fun admission_only :: "command \<Rightarrow> bool" where
  "admission_only (SimulateLinkFailure u v) = False"
| "admission_only (InjectTraffic s d ty bw) = (0 \<le> bw)"
| "admission_only _ = True"

text \<open>Every edge of the topology has both of its ledger entries.\<close>

definition edges_covered :: "controller \<Rightarrow> bool" where
  "edges_covered c =
     (\<forall>a b. has_edge (topology c) a b \<longrightarrow>
        link_utilization c (a, b) \<noteq> None \<and> link_utilization c (b, a) \<noteq> None)"

text \<open>The example of the specification: three nodes and three weighted links.\<close>

definition triangle_commands :: "command list" where
  "triangle_commands =
     [AddNode ''a'', AddNode ''b'', AddNode ''c'',
      AddLink ''a'' ''b'' 1, AddLink ''b'' ''c'' 1, AddLink ''a'' ''c'' 5]"

definition triangle_flow_commands :: "command list" where
  "triangle_flow_commands = triangle_commands @ [InjectTraffic ''a'' ''c'' ''data'' 10]"


section \<open>Properties\<close>

subsection \<open>Consecutive pairs and the enumeration of simple paths\<close>

lemma path_edges_simps [simp]:
  "path_edges [] = []" "path_edges [x] = []"
  "path_edges (x # y # r) = (x, y) # path_edges (y # r)"
  by (simp_all add: path_edges_def)

lemma path_edges_Cons: "q \<noteq> [] \<Longrightarrow> path_edges (x # q) = (x, hd q) # path_edges q"
  by (cases q) simp_all

lemma paths_upto_same [simp]: "paths_upto n G vis t t = [[t]]"
  by (cases n) simp_all

lemma paths_upto_sound:
  "p \<in> set (paths_upto n G vis u t) \<Longrightarrow> u \<in> set vis \<Longrightarrow>
   \<exists>q. p = u # q \<and> distinct (u # q) \<and> set q \<subseteq> set (g_nodes G) \<and> set q \<inter> set vis = {} \<and>
       last (u # q) = t \<and> list_all (\<lambda>(a, b). has_edge G a b) (path_edges (u # q))"
proof (induction n arbitrary: vis u p)
  case 0
  then show ?case by (auto split: if_splits)
next
  case (Suc n)
  show ?case
  proof (cases "u = t")
    case True
    with Suc.prems show ?thesis by simp
  next
    case False
    with Suc.prems obtain v r where v: "v \<in> set (g_nodes G)" "has_edge G u v" "v \<notin> set vis"
      and r: "r \<in> set (paths_upto n G (v # vis) v t)" and p: "p = u # r"
      by auto
    from Suc.IH [OF r] obtain q where q: "r = v # q" "distinct (v # q)"
      "set q \<subseteq> set (g_nodes G)" "set q \<inter> set (v # vis) = {}" "last (v # q) = t"
      "list_all (\<lambda>(a, b). has_edge G a b) (path_edges (v # q))"
      by auto
    from q(4) Suc.prems(2) have "u \<notin> set q" by auto
    moreover from v(3) Suc.prems(2) have "u \<noteq> v" by auto
    ultimately show ?thesis using p q v by auto
  qed
qed

lemma paths_upto_complete:
  "distinct (u # q) \<Longrightarrow> set q \<subseteq> set (g_nodes G) \<Longrightarrow> set q \<inter> set vis = {} \<Longrightarrow>
   last (u # q) = t \<Longrightarrow> list_all (\<lambda>(a, b). has_edge G a b) (path_edges (u # q)) \<Longrightarrow>
   length q \<le> n \<Longrightarrow> u # q \<in> set (paths_upto n G vis u t)"
proof (induction n arbitrary: vis u q)
  case 0
  then show ?case by simp
next
  case (Suc n)
  show ?case
  proof (cases q)
    case Nil
    with Suc.prems show ?thesis by simp
  next
    case (Cons v r)
    with Suc.prems have "last q = t" by simp
    with Cons have "t \<in> set q" using last_in_set [of q] by simp
    with Suc.prems(1) have ut: "u \<noteq> t" by auto
    have "v # r \<in> set (paths_upto n G (v # vis) v t)"
      using Suc.prems Cons by (intro Suc.IH) auto
    moreover have "has_edge G u v" "v \<notin> set vis" "v \<in> set (g_nodes G)"
      using Suc.prems Cons by auto
    ultimately show ?thesis using ut Cons by auto
  qed
qed

lemma distinct_length_le: "distinct q \<Longrightarrow> set q \<subseteq> set xs \<Longrightarrow> length q \<le> length xs"
  by (metis card_length card_mono distinct_card List.finite_set le_trans)

lemma walk_Cons_hd: "walk G s d p \<Longrightarrow> \<exists>q. p = s # q"
  by (cases p) (auto simp: walk_def)

lemma simple_paths_iff:
  "has_node G s \<Longrightarrow> p \<in> set (simple_paths G s t) \<longleftrightarrow> walk G s t p \<and> distinct p"
proof
  assume s: "has_node G s" and "p \<in> set (simple_paths G s t)"
  then have "p \<in> set (paths_upto (length (g_nodes G)) G [s] s t)" by (simp add: simple_paths_def)
  from paths_upto_sound [OF this] s show "walk G s t p \<and> distinct p"
    by (auto simp: walk_def has_node_def)
next
  assume s: "has_node G s" and w: "walk G s t p \<and> distinct p"
  then obtain q where p: "p = s # q" using walk_Cons_hd by blast
  have "length q \<le> length (g_nodes G)"
    using w p by (intro distinct_length_le) (auto simp: walk_def)
  then have "s # q \<in> set (paths_upto (length (g_nodes G)) G [s] s t)"
    using w p by (intro paths_upto_complete) (auto simp: walk_def)
  then show "p \<in> set (simple_paths G s t)" by (simp add: simple_paths_def p)
qed

lemma hd_sort_key_min:
  "xs \<noteq> [] \<Longrightarrow> hd (sort_key f xs) \<in> set xs \<and> (\<forall>y \<in> set xs. f (hd (sort_key f xs)) \<le> f y)"
proof -
  assume ne: "xs \<noteq> []"
  let ?ys = "sort_key f xs"
  have s: "set ?ys = set xs" by simp
  with ne have yne: "?ys \<noteq> []" by (metis set_empty)
  then obtain z zs where z: "?ys = z # zs" by (cases ?ys) auto
  have "sorted (map f ?ys)" by (rule sorted_sort_key)
  with z have "\<forall>y \<in> set zs. f z \<le> f y" by auto
  with z s show ?thesis by (metis list.sel(1) list.set_intros(1) order_refl set_ConsD)
qed

lemma min_list_le: "x \<in> set xs \<Longrightarrow> min_list xs \<le> (x::int)"
  by (metis List.finite_set Min_le empty_iff min_list_Min set_empty)

lemma min_list_in: "xs \<noteq> [] \<Longrightarrow> min_list xs \<in> set (xs::int list)"
  by (metis List.finite_set Min_in min_list_Min set_empty)

subsection \<open>Cutting the cycles out of a walk\<close>

lemma path_weight_sum: "path_weight G p = sum_list (map (edge_weight G) (path_edges p))"
  by (induction G p rule: path_weight.induct) simp_all

lemma path_edges_suffix: "set (path_edges zs) \<subseteq> set (path_edges (ys @ zs))"
proof (induction ys)
  case Nil
  then show ?case by simp
next
  case (Cons a ys)
  show ?case
  proof (cases "ys @ zs = []")
    case True
    then show ?thesis by simp
  next
    case False
    then have "path_edges (a # ys @ zs) = (a, hd (ys @ zs)) # path_edges (ys @ zs)"
      by (rule path_edges_Cons)
    with Cons show ?thesis by auto
  qed
qed

lemma shortcut:
  "q \<noteq> [] \<Longrightarrow>
   \<exists>p. p \<noteq> [] \<and> hd p = hd q \<and> last p = last q \<and> distinct p \<and> set p \<subseteq> set q \<and>
       set (path_edges p) \<subseteq> set (path_edges q)"
proof (induction q rule: list_nonempty_induct)
  case (single x)
  show ?case by (rule exI [of _ "[x]"]) simp
next
  case (cons x q)
  then obtain p where p: "p \<noteq> []" "hd p = hd q" "last p = last q" "distinct p" "set p \<subseteq> set q"
    "set (path_edges p) \<subseteq> set (path_edges q)"
    by blast
  have eq: "path_edges (x # q) = (x, hd q) # path_edges q"
    using cons.hyps by (rule path_edges_Cons)
  show ?case
  proof (cases "x \<in> set p")
    case True
    then obtain ys zs where split: "p = ys @ x # zs" by (meson split_list)
    have "set (path_edges (x # zs)) \<subseteq> set (path_edges p)"
      unfolding split by (rule path_edges_suffix)
    then have "set (path_edges (x # zs)) \<subseteq> set (path_edges (x # q))"
      using p(6) eq by auto
    moreover have "last (x # zs) = last (x # q)"
      using p(3) split cons.hyps by simp
    moreover have "distinct (x # zs)" "set (x # zs) \<subseteq> set (x # q)"
      using p(4,5) split by auto
    ultimately show ?thesis
      by (intro exI [of _ "x # zs"]) simp
  next
    case False
    have "path_edges (x # p) = (x, hd q) # path_edges p"
      using p(1,2) by (simp add: path_edges_Cons)
    then have "set (path_edges (x # p)) \<subseteq> set (path_edges (x # q))"
      using p(6) eq by auto
    moreover have "last (x # p) = last (x # q)"
      using p(1,3) cons.hyps by simp
    moreover have "distinct (x # p)" "set (x # p) \<subseteq> set (x # q)"
      using p(4,5) False by auto
    ultimately show ?thesis
      by (intro exI [of _ "x # p"]) simp
  qed
qed

lemma walk_shortcut:
  assumes "walk G s d q"
  shows "\<exists>p. walk G s d p \<and> distinct p \<and> set (path_edges p) \<subseteq> set (path_edges q)"
proof -
  from assms have "q \<noteq> []" by (simp add: walk_def)
  from shortcut [OF this] obtain p where p: "p \<noteq> []" "hd p = hd q" "last p = last q"
    "distinct p" "set p \<subseteq> set q" "set (path_edges p) \<subseteq> set (path_edges q)"
    by blast
  with assms have "walk G s d p"
    by (auto simp: walk_def list_all_iff)
  with p show ?thesis by blast
qed

lemma walk_edge_source:
  "walk G s d q \<Longrightarrow> (a, b) \<in> set (path_edges q) \<Longrightarrow>
   (\<exists>q'. walk G s a q') \<and> b \<in> set (g_nodes G) \<and> has_edge G a b"
proof (induction q arbitrary: s)
  case Nil
  then show ?case by simp
next
  case (Cons x q)
  from Cons.prems(1) have sx: "s = x" and xn: "x \<in> set (g_nodes G)" by (auto simp: walk_def)
  show ?case
  proof (cases q)
    case Nil
    with Cons.prems show ?thesis by simp
  next
    case (Cons y r)
    with Cons.prems(1) have wq: "walk G y d q" and xy: "has_edge G x y"
      by (auto simp: walk_def)
    show ?thesis
    proof (cases "(a, b) = (x, y)")
      case True
      have "walk G s a [x]" using True sx xn by (simp add: walk_def)
      moreover from wq Cons have "y \<in> set (g_nodes G)" by (auto simp: walk_def)
      ultimately show ?thesis using True xy by blast
    next
      case False
      with Cons.prems(2) Cons have "(a, b) \<in> set (path_edges q)" by auto
      from Cons.IH [OF wq this] obtain q' where q': "walk G y a q'"
        and rest: "b \<in> set (g_nodes G)" "has_edge G a b"
        by blast
      from q' obtain r' where r': "q' = y # r'" using walk_Cons_hd by blast
      with q' xy xn sx have "walk G s a (x # q')"
        by (auto simp: walk_def)
      with rest show ?thesis by blast
    qed
  qed
qed

lemma reachable_nodes_iff:
  "has_node G s \<Longrightarrow> x \<in> set (reachable_nodes G s) \<longleftrightarrow> (\<exists>q. walk G s x q)"
proof
  assume s: "has_node G s" and "x \<in> set (reachable_nodes G s)"
  then have "simple_paths G s x \<noteq> []" by (simp add: reachable_nodes_def)
  then obtain p where "p \<in> set (simple_paths G s x)"
    by (cases "simple_paths G s x") auto
  with s show "\<exists>q. walk G s x q" by (auto simp: simple_paths_iff)
next
  assume s: "has_node G s" and "\<exists>q. walk G s x q"
  then obtain q where q: "walk G s x q" by blast
  from walk_shortcut [OF q] obtain p where "walk G s x p" "distinct p" by blast
  with s have "p \<in> set (simple_paths G s x)" by (simp add: simple_paths_iff)
  moreover from q have "x \<in> set (g_nodes G)"
    using last_in_set [of q] by (auto simp: walk_def)
  ultimately show "x \<in> set (reachable_nodes G s)"
    by (auto simp: reachable_nodes_def)
qed

lemma walk_weights_nonneg:
  assumes "\<not> negative_edge_seen G s" and "walk G s d q" and "e \<in> set (path_edges q)"
  shows "0 \<le> edge_weight G e"
proof -
  obtain a b where e: "e = (a, b)" by (cases e)
  from assms(2) have s: "has_node G s" by (cases q) (auto simp: walk_def has_node_def)
  from walk_edge_source [OF assms(2)] assms(3) e
  have "\<exists>q'. walk G s a q'" and b: "b \<in> set (g_nodes G)" by blast+
  with s have a: "a \<in> set (reachable_nodes G s)" by (simp add: reachable_nodes_iff)
  show ?thesis
  proof (cases "g_adj G (a, b)")
    case None
    then show ?thesis by (simp add: edge_weight_def e)
  next
    case (Some w)
    with assms(1) a b have "\<not> w < 0"
      by (fastforce simp: negative_edge_seen_def list_ex_iff)
    with Some show ?thesis by (simp add: edge_weight_def e)
  qed
qed

lemma sum_set_le_sum_list:
  "(\<forall>x \<in> set ys. 0 \<le> f x) \<Longrightarrow> sum f (set ys) \<le> (sum_list (map f ys) :: int)"
proof (induction ys)
  case Nil
  then show ?case by simp
next
  case (Cons y ys)
  then have IH: "sum f (set ys) \<le> sum_list (map f ys)" and y: "0 \<le> f y" by auto
  show ?case
  proof (cases "y \<in> set ys")
    case True
    then have "insert y (set ys) = set ys" by auto
    with IH y show ?thesis by simp
  next
    case False
    with IH show ?thesis by simp
  qed
qed

lemma sub_edges_weight_le:
  assumes "distinct p" and "set (path_edges p) \<subseteq> set (path_edges q)"
    and "\<forall>e \<in> set (path_edges q). 0 \<le> edge_weight G e"
  shows "path_weight G p \<le> path_weight G q"
proof -
  have "distinct (path_edges p)"
    unfolding path_edges_def using assms(1) by (rule distinct_zipI1)
  then have "path_weight G p = sum (edge_weight G) (set (path_edges p))"
    by (simp add: path_weight_sum sum_list_distinct_conv_sum_set)
  also have "\<dots> \<le> sum (edge_weight G) (set (path_edges q))"
    using assms(2,3) by (intro sum_mono2) auto
  also have "\<dots> \<le> path_weight G q"
    unfolding path_weight_sum using assms(3) by (rule sum_set_le_sum_list)
  finally show ?thesis .
qed

lemma walk_simple_lighter:
  assumes "\<not> negative_edge_seen G s" and "walk G s d q"
  shows "\<exists>p. walk G s d p \<and> distinct p \<and> path_weight G p \<le> path_weight G q"
proof -
  from walk_shortcut [OF assms(2)] obtain p where p: "walk G s d p" "distinct p"
    "set (path_edges p) \<subseteq> set (path_edges q)"
    by blast
  have "\<forall>e \<in> set (path_edges q). 0 \<le> edge_weight G e"
    using walk_weights_nonneg [OF assms] by blast
  with p have "path_weight G p \<le> path_weight G q"
    by (intro sub_edges_weight_le)
  with p show ?thesis by blast
qed

subsection \<open>What the path selector returns\<close>

lemma all_shortest_paths_Inr:
  assumes "all_shortest_paths G s d = Inr ps"
  shows "ps \<noteq> [] \<and> has_node G s \<and> \<not> negative_edge_seen G s \<and>
         set ps = {p \<in> set (simple_paths G s d).
                     \<forall>q \<in> set (simple_paths G s d). path_weight G p \<le> path_weight G q}"
proof -
  let ?sp = "simple_paths G s d"
  let ?m = "min_list (map (path_weight G) ?sp)"
  from assms have s: "has_node G s" and n: "\<not> negative_edge_seen G s" and ne: "?sp \<noteq> []"
    and ps: "ps = filter (\<lambda>p. path_weight G p = ?m) ?sp"
    by (auto simp: all_shortest_paths_def Let_def split: if_splits)
  from ne have "?m \<in> set (map (path_weight G) ?sp)" by (intro min_list_in) simp
  then obtain p0 where p0: "p0 \<in> set ?sp" "path_weight G p0 = ?m" by auto
  have le: "\<And>q. q \<in> set ?sp \<Longrightarrow> ?m \<le> path_weight G q"
    by (intro min_list_le) simp
  have "path_weight G x = ?m \<longleftrightarrow> (\<forall>q \<in> set ?sp. path_weight G x \<le> path_weight G q)"
    if "x \<in> set ?sp" for x
    using p0 le [OF that] le by (metis order_antisym)
  then have "set ps = {p \<in> set ?sp. \<forall>q \<in> set ?sp. path_weight G p \<le> path_weight G q}"
    unfolding ps by auto
  moreover have "ps \<noteq> []" using p0 ps by (auto simp: filter_empty_conv)
  ultimately show ?thesis using s n by blast
qed

lemma all_shortest_paths_cases:
  "all_shortest_paths G s d = Inl e \<Longrightarrow>
     (e = NodeNotFound \<and> \<not> has_node G s) \<or>
     (e = ValueError \<and> has_node G s \<and> negative_edge_seen G s) \<or>
     (e = NetworkXNoPath \<and> has_node G s \<and> \<not> negative_edge_seen G s \<and> simple_paths G s d = [])"
  by (auto simp: all_shortest_paths_def Let_def split: if_splits)

lemma compute_path_Some:
  assumes "compute_path c s d ty = Inr (Some p)"
  shows "has_node (topology c) s \<and> has_node (topology c) d \<and>
         \<not> negative_edge_seen (topology c) s \<and>
         p \<in> set (simple_paths (topology c) s d) \<and>
         (\<forall>q \<in> set (simple_paths (topology c) s d).
            path_weight (topology c) p \<le> path_weight (topology c) q \<and>
            (path_weight (topology c) q = path_weight (topology c) p \<longrightarrow>
             path_utilization (link_utilization c) p \<le> path_utilization (link_utilization c) q))"
proof -
  let ?G = "topology c"
  from assms have nodes: "has_node ?G s" "has_node ?G d"
    by (auto simp: compute_path_def split: if_splits)
  with assms obtain ps where ps: "all_shortest_paths ?G s d = Inr ps"
    and p: "p = hd (sort_key (path_utilization (link_utilization c)) ps)"
    by (auto simp: compute_path_def split: if_splits sum.splits exn.splits)
  from all_shortest_paths_Inr [OF ps] have ne: "ps \<noteq> []" and neg: "\<not> negative_edge_seen ?G s"
    and set: "set ps = {p \<in> set (simple_paths ?G s d).
                     \<forall>q \<in> set (simple_paths ?G s d). path_weight ?G p \<le> path_weight ?G q}"
    by blast+
  from hd_sort_key_min [OF ne, of "path_utilization (link_utilization c)"] p
  have pin: "p \<in> set ps"
    and pmin: "\<forall>q \<in> set ps. path_utilization (link_utilization c) p
                 \<le> path_utilization (link_utilization c) q"
    by blast+
  have "\<forall>q \<in> set (simple_paths ?G s d).
            path_weight ?G p \<le> path_weight ?G q \<and>
            (path_weight ?G q = path_weight ?G p \<longrightarrow>
             path_utilization (link_utilization c) p \<le> path_utilization (link_utilization c) q)"
  proof
    fix q assume q: "q \<in> set (simple_paths ?G s d)"
    from pin set q have le: "path_weight ?G p \<le> path_weight ?G q" by blast
    {
      assume "path_weight ?G q = path_weight ?G p"
      with pin set q have "q \<in> set ps" by auto
      with pmin have "path_utilization (link_utilization c) p
                 \<le> path_utilization (link_utilization c) q" by blast
    }
    with le show "path_weight ?G p \<le> path_weight ?G q \<and>
            (path_weight ?G q = path_weight ?G p \<longrightarrow>
             path_utilization (link_utilization c) p \<le> path_utilization (link_utilization c) q)"
      by blast
  qed
  with nodes neg pin set show ?thesis by blast
qed

lemma compute_path_None:
  "compute_path c s d ty = Inr None \<longleftrightarrow>
     \<not> has_node (topology c) s \<or> \<not> has_node (topology c) d \<or>
     (\<not> negative_edge_seen (topology c) s \<and> simple_paths (topology c) s d = [])"
proof (cases "has_node (topology c) s \<and> has_node (topology c) d")
  case False
  then show ?thesis by (auto simp: compute_path_def)
next
  case True
  show ?thesis
  proof (cases "all_shortest_paths (topology c) s d")
    case (Inl e)
    from all_shortest_paths_cases [OF Inl] True Inl show ?thesis
      by (auto simp: compute_path_def)
  next
    case (Inr ps)
    from all_shortest_paths_Inr [OF Inr] obtain p where "ps \<noteq> []" "p \<in> set ps"
      "p \<in> set (simple_paths (topology c) s d)"
      by (cases ps) auto
    with True Inr show ?thesis
      by (auto simp: compute_path_def)
  qed
qed

lemma compute_path_raises:
  "compute_path c s d ty = Inl e \<longleftrightarrow>
     e = ValueError \<and> has_node (topology c) s \<and> has_node (topology c) d \<and>
     negative_edge_seen (topology c) s"
proof (cases "has_node (topology c) s \<and> has_node (topology c) d")
  case False
  then show ?thesis by (auto simp: compute_path_def)
next
  case True
  show ?thesis
  proof (cases "all_shortest_paths (topology c) s d")
    case (Inl e')
    from all_shortest_paths_cases [OF Inl] True Inl show ?thesis
      by (auto simp: compute_path_def)
  next
    case (Inr ps)
    from all_shortest_paths_Inr [OF Inr] True Inr show ?thesis
      by (auto simp: compute_path_def)
  qed
qed

subsection \<open>Reserving and releasing bandwidth\<close>

lemma decrement_apply:
  "decrement_if_present lu k bw k' = (if k' = k then map_option (\<lambda>x. x - bw) (lu k) else lu k')"
  by (simp add: decrement_if_present_def split: option.splits)

lemma dom_decrement [simp]: "dom (decrement_if_present lu k bw) = dom lu"
  by (auto simp: decrement_if_present_def split: option.splits)

lemma decrement_twice_case:
  "(case decrement_if_present (decrement_if_present lu k1 bw) k2 bw k of
      None \<Rightarrow> None | Some x \<Rightarrow> Some (x - bw * int n))
   = (case lu k of
        None \<Rightarrow> None
      | Some x \<Rightarrow>
          Some (x - bw * int ((if k1 = k then 1 else 0) + (if k2 = k then 1 else 0) + n)))"
  by (cases "lu k") (auto simp: decrement_apply algebra_simps)

lemma count_path_edges_step:
  "count_list (path_edges (a # b # rest) @ map prod.swap (path_edges (a # b # rest))) k
   = (if (a, b) = k then 1 else 0) + (if (b, a) = k then 1 else 0)
     + count_list (path_edges (b # rest) @ map prod.swap (path_edges (b # rest))) k"
  by simp

lemma released_step:
  "released (decrement_if_present (decrement_if_present lu (a, b) bw) (b, a) bw) (b # rest) bw
   = released lu (a # b # rest) bw"
proof (rule ext)
  fix k
  show "released (decrement_if_present (decrement_if_present lu (a, b) bw) (b, a) bw)
          (b # rest) bw k
        = released lu (a # b # rest) bw k"
    unfolding released_def count_path_edges_step by (rule decrement_twice_case)
qed

lemma released_short [simp]: "released lu [] bw = lu" "released lu [x] bw = lu"
  by (rule ext, simp add: released_def split: option.splits)+

lemma release_released: "release lu p bw = released lu p bw"
proof (induction lu p bw rule: release.induct)
  case (1 lu a b rest bw)
  then show ?case by (simp add: released_step)
qed simp_all

lemma dom_released [simp]: "dom (released lu p bw) = dom lu"
  by (auto simp: released_def dom_def split: option.splits)

lemma reserve_step:
  assumes "lu (u, v) = Some x" and "(lu((u, v) \<mapsto> x + bw)) (v, u) = Some y"
  shows "reserve lu (u # v # rest) bw
         = reserve ((lu((u, v) \<mapsto> x + bw))((v, u) \<mapsto> y + bw)) (v # rest) bw"
  using assms by (simp add: Let_def)

lemma reserve_step_decrement:
  assumes "lu (u, v) = Some x" and "(lu((u, v) \<mapsto> x + bw)) (v, u) = Some y"
  shows "(lu((u, v) \<mapsto> x + bw))((v, u) \<mapsto> y + bw)
         = decrement_if_present (decrement_if_present lu (u, v) (- bw)) (v, u) (- bw)"
proof -
  have "decrement_if_present lu (u, v) (- bw) = lu((u, v) \<mapsto> x + bw)"
    using assms(1) by (simp add: decrement_if_present_def)
  then show ?thesis
    using assms(2) by (simp add: decrement_if_present_def)
qed

lemma reserve_fails_first:
  "lu (u, v) = None \<Longrightarrow> reserve lu (u # v # rest) bw = (Some KeyError, lu)"
  by simp

lemma reserve_fails_second:
  "lu (u, v) = Some x \<Longrightarrow> (lu((u, v) \<mapsto> x + bw)) (v, u) = None \<Longrightarrow>
     reserve lu (u # v # rest) bw = (Some KeyError, lu((u, v) \<mapsto> x + bw))"
  by (simp add: Let_def)

lemma reserve_release:
  "fst (reserve lu p bw) = None \<Longrightarrow> snd (reserve lu p bw) = release lu p (- bw)"
proof (induction lu p bw rule: reserve.induct)
  case (1 lu u v rest bw)
  show ?case
  proof (cases "lu (u, v)")
    case None
    with "1.prems" show ?thesis by (simp add: reserve_fails_first)
  next
    case (Some x)
    define lu1 where "lu1 = lu((u, v) \<mapsto> x + bw)"
    show ?thesis
    proof (cases "lu1 (v, u)")
      case None
      then have "reserve lu (u # v # rest) bw = (Some KeyError, lu1)"
        unfolding lu1_def using Some by (rule reserve_fails_second [rotated])
      with "1.prems" show ?thesis by simp
    next
      case y: (Some y)
      have st: "reserve lu (u # v # rest) bw = reserve (lu1((v, u) \<mapsto> y + bw)) (v # rest) bw"
        unfolding lu1_def using Some y [unfolded lu1_def] by (rule reserve_step)
      have dec: "lu1((v, u) \<mapsto> y + bw)
         = decrement_if_present (decrement_if_present lu (u, v) (- bw)) (v, u) (- bw)"
        unfolding lu1_def using Some y [unfolded lu1_def] by (rule reserve_step_decrement)
      from "1.prems" have "fst (reserve (lu1((v, u) \<mapsto> y + bw)) (v # rest) bw) = None"
        unfolding st .
      from "1.IH" [OF Some lu1_def y this]
      have "snd (reserve (lu1((v, u) \<mapsto> y + bw)) (v # rest) bw)
            = release (lu1((v, u) \<mapsto> y + bw)) (v # rest) (- bw)" .
      then show ?thesis
        unfolding st dec by simp
    qed
  qed
qed simp_all

lemma reserve_released:
  "reserve lu p bw = (None, lu') \<Longrightarrow> lu' = released lu p (- bw)"
  using reserve_release [of lu p bw] by (simp add: release_released)

lemma dom_reserve [simp]: "dom (snd (reserve lu p bw)) = dom lu"
proof (induction lu p bw rule: reserve.induct)
  case (1 lu u v rest bw)
  show ?case
  proof (cases "lu (u, v)")
    case None
    then show ?thesis by (simp add: reserve_fails_first)
  next
    case (Some x)
    define lu1 where "lu1 = lu((u, v) \<mapsto> x + bw)"
    have d1: "dom lu1 = dom lu" using Some by (auto simp: lu1_def)
    show ?thesis
    proof (cases "lu1 (v, u)")
      case None
      then have "reserve lu (u # v # rest) bw = (Some KeyError, lu1)"
        unfolding lu1_def using Some by (rule reserve_fails_second [rotated])
      with d1 show ?thesis by simp
    next
      case y: (Some y)
      have st: "reserve lu (u # v # rest) bw = reserve (lu1((v, u) \<mapsto> y + bw)) (v # rest) bw"
        unfolding lu1_def using Some y [unfolded lu1_def] by (rule reserve_step)
      have d2: "dom (lu1((v, u) \<mapsto> y + bw)) = dom lu" using y d1 by auto
      have "dom (snd (reserve (lu1((v, u) \<mapsto> y + bw)) (v # rest) bw))
            = dom (lu1((v, u) \<mapsto> y + bw))"
        using Some lu1_def y by (rule "1.IH")
      then show ?thesis
        unfolding st d2 .
    qed
  qed
qed simp_all

lemma reserve_no_error:
  "set (path_edges p) \<union> prod.swap ` set (path_edges p) \<subseteq> dom lu \<Longrightarrow>
   fst (reserve lu p bw) = None"
proof (induction lu p bw rule: reserve.induct)
  case (1 lu u v rest bw)
  from "1.prems" have "(u, v) \<in> dom lu" by simp
  then obtain x where x: "lu (u, v) = Some x" by blast
  define lu1 where "lu1 = lu((u, v) \<mapsto> x + bw)"
  have d1: "dom lu1 = dom lu" using x by (auto simp: lu1_def)
  from "1.prems" have "(v, u) \<in> dom lu" by simp
  with d1 obtain y where y: "lu1 (v, u) = Some y" by blast
  have st: "reserve lu (u # v # rest) bw = reserve (lu1((v, u) \<mapsto> y + bw)) (v # rest) bw"
    unfolding lu1_def using x y [unfolded lu1_def] by (rule reserve_step)
  have d2: "dom (lu1((v, u) \<mapsto> y + bw)) = dom lu" using y d1 by auto
  have "set (path_edges (v # rest)) \<union> prod.swap ` set (path_edges (v # rest)) \<subseteq> dom lu"
    using "1.prems" by simp
  then have "set (path_edges (v # rest)) \<union> prod.swap ` set (path_edges (v # rest))
               \<subseteq> dom (lu1((v, u) \<mapsto> y + bw))"
    unfolding d2 .
  with x lu1_def y have "fst (reserve (lu1((v, u) \<mapsto> y + bw)) (v # rest) bw) = None"
    by (rule "1.IH")
  then show ?case
    unfolding st .
qed simp_all

lemma path_edges_members:
  "(a, b) \<in> set (path_edges p) \<Longrightarrow> a \<in> set p \<and> b \<in> set (tl p)"
  unfolding path_edges_def by (auto dest: set_zip_leftD set_zip_rightD)

lemma distinct_no_reverse_edge:
  "distinct p \<Longrightarrow> (a, b) \<in> set (path_edges p) \<Longrightarrow> (b, a) \<notin> set (path_edges p)"
proof (induction p)
  case Nil
  then show ?case by simp
next
  case (Cons x p)
  show ?case
  proof (cases p)
    case Nil
    with Cons.prems show ?thesis by simp
  next
    case (Cons y r)
    have xp: "x \<notin> set p" and dp: "distinct p" using Cons.prems(1) by auto
    have inp: "\<And>c d. (c, d) \<in> set (path_edges p) \<Longrightarrow> c \<in> set p \<and> d \<in> set p"
      using path_edges_members by (metis list.set_sel(2) tl_Nil)
    have eq: "path_edges (x # p) = (x, y) # path_edges p" using Cons by simp
    show ?thesis
    proof (cases "(a, b) = (x, y)")
      case True
      then have "(b, a) = (y, x)" by simp
      moreover have "(y, x) \<notin> set (path_edges p)" using inp xp by blast
      moreover have "x \<noteq> y" using xp Cons by auto
      ultimately show ?thesis using eq by auto
    next
      case False
      with Cons.prems(2) eq have ab: "(a, b) \<in> set (path_edges p)" by auto
      from Cons.IH [OF dp ab] have "(b, a) \<notin> set (path_edges p)" .
      moreover from inp [OF ab] xp have "b \<noteq> x" by blast
      ultimately show ?thesis using eq by auto
    qed
  qed
qed

lemma count_list_distinct:
  "distinct xs \<Longrightarrow> count_list xs x = (if x \<in> set xs then 1 else 0)"
  by (induction xs) auto

lemma count_path_edge:
  assumes "distinct p" and "(a, b) \<in> set (path_edges p)"
  shows "count_list (path_edges p @ map prod.swap (path_edges p)) (a, b) = 1"
    and "count_list (path_edges p @ map prod.swap (path_edges p)) (b, a) = 1"
proof -
  have d: "distinct (path_edges p)"
    unfolding path_edges_def using assms(1) by (rule distinct_zipI1)
  have ds: "distinct (map prod.swap (path_edges p))"
    using d by (simp add: distinct_map)
  have n: "(b, a) \<notin> set (path_edges p)"
    using assms by (rule distinct_no_reverse_edge)
  have m1: "(a, b) \<notin> set (map prod.swap (path_edges p))" using n by auto
  have m2: "(b, a) \<in> set (map prod.swap (path_edges p))" using assms(2) by force
  show "count_list (path_edges p @ map prod.swap (path_edges p)) (a, b) = 1"
    using d ds assms(2) m1 by (simp add: count_list_distinct)
  show "count_list (path_edges p @ map prod.swap (path_edges p)) (b, a) = 1"
    using d ds n m2 by (simp add: count_list_distinct)
qed

subsection \<open>Keys and values touched by a reservation\<close>

lemma reserve_success_keys:
  "fst (reserve lu p bw) = None \<Longrightarrow>
   set (path_edges p) \<union> prod.swap ` set (path_edges p) \<subseteq> dom lu"
proof (induction lu p bw rule: reserve.induct)
  case (1 lu u v rest bw)
  show ?case
  proof (cases "lu (u, v)")
    case None
    with "1.prems" show ?thesis by (simp add: reserve_fails_first)
  next
    case (Some x)
    define lu1 where "lu1 = lu((u, v) \<mapsto> x + bw)"
    have d1: "dom lu1 = dom lu" using Some by (auto simp: lu1_def)
    show ?thesis
    proof (cases "lu1 (v, u)")
      case None
      then have "reserve lu (u # v # rest) bw = (Some KeyError, lu1)"
        unfolding lu1_def using Some by (rule reserve_fails_second [rotated])
      with "1.prems" show ?thesis by simp
    next
      case y: (Some y)
      have st: "reserve lu (u # v # rest) bw = reserve (lu1((v, u) \<mapsto> y + bw)) (v # rest) bw"
        unfolding lu1_def using Some y [unfolded lu1_def] by (rule reserve_step)
      have d2: "dom (lu1((v, u) \<mapsto> y + bw)) = dom lu" using y d1 by auto
      from "1.prems" have "fst (reserve (lu1((v, u) \<mapsto> y + bw)) (v # rest) bw) = None"
        unfolding st .
      with Some lu1_def y
      have "set (path_edges (v # rest)) \<union> prod.swap ` set (path_edges (v # rest))
              \<subseteq> dom (lu1((v, u) \<mapsto> y + bw))"
        by (rule "1.IH")
      then have "set (path_edges (v # rest)) \<union> prod.swap ` set (path_edges (v # rest)) \<subseteq> dom lu"
        unfolding d2 .
      moreover have "(u, v) \<in> dom lu" using Some by blast
      moreover have "(v, u) \<in> dom lu" using y d1 by blast
      ultimately show ?thesis by simp
    qed
  qed
qed simp_all

lemma reserve_nonneg:
  "0 \<le> bw \<Longrightarrow> (\<forall>k x. lu k = Some x \<longrightarrow> 0 \<le> x) \<Longrightarrow>
   snd (reserve lu p bw) k = Some z \<Longrightarrow> 0 \<le> z"
proof (induction lu p bw arbitrary: z rule: reserve.induct)
  case (1 lu u v rest bw)
  show ?case
  proof (cases "lu (u, v)")
    case None
    with "1.prems"(3) have "lu k = Some z" by (simp add: reserve_fails_first)
    with "1.prems"(2) show ?thesis by blast
  next
    case (Some x)
    define lu1 where "lu1 = lu((u, v) \<mapsto> x + bw)"
    have "0 \<le> x" using "1.prems"(2) Some by blast
    then have n1: "\<forall>k x. lu1 k = Some x \<longrightarrow> 0 \<le> x"
      using "1.prems"(1,2) unfolding lu1_def by (metis add_nonneg_nonneg fun_upd_apply option.inject)
    show ?thesis
    proof (cases "lu1 (v, u)")
      case None
      then have "reserve lu (u # v # rest) bw = (Some KeyError, lu1)"
        unfolding lu1_def using Some by (rule reserve_fails_second [rotated])
      with "1.prems"(3) have "lu1 k = Some z" by simp
      with n1 show ?thesis by blast
    next
      case y: (Some y)
      have st: "reserve lu (u # v # rest) bw = reserve (lu1((v, u) \<mapsto> y + bw)) (v # rest) bw"
        unfolding lu1_def using Some y [unfolded lu1_def] by (rule reserve_step)
      have "0 \<le> y" using n1 y by blast
      then have n2: "\<forall>k x. (lu1((v, u) \<mapsto> y + bw)) k = Some x \<longrightarrow> 0 \<le> x"
        using n1 "1.prems"(1) by (metis add_nonneg_nonneg fun_upd_apply option.inject)
      from "1.prems"(3) have "snd (reserve (lu1((v, u) \<mapsto> y + bw)) (v # rest) bw) k = Some z"
        unfolding st .
      with Some lu1_def y "1.prems"(1) n2 show ?thesis
        by (rule "1.IH")
    qed
  qed
next
  fix lu :: ledger and bw z :: int
  assume "\<forall>k x. lu k = Some x \<longrightarrow> 0 \<le> x" and "snd (reserve lu [] bw) k = Some z"
  then show "0 \<le> z" by (metis reserve.simps(2) snd_conv)
next
  fix lu :: ledger and v :: node and bw z :: int
  assume "\<forall>k x. lu k = Some x \<longrightarrow> 0 \<le> x" and "snd (reserve lu [v] bw) k = Some z"
  then show "0 \<le> z" by (metis reserve.simps(3) snd_conv)
qed

lemma edges_covered_cong:
  "topology c' = topology c \<Longrightarrow> dom (link_utilization c') = dom (link_utilization c) \<Longrightarrow>
   edges_covered c' = edges_covered c"
proof -
  assume t: "topology c' = topology c"
    and d: "dom (link_utilization c') = dom (link_utilization c)"
  have "(link_utilization c' k \<noteq> None) = (link_utilization c k \<noteq> None)" for k
    using d by (metis domIff)
  with t show ?thesis unfolding edges_covered_def by simp
qed

lemma compute_path_walk:
  assumes "compute_path c s d ty = Inr (Some p)"
  shows "walk (topology c) s d p" and "distinct p"
proof -
  from compute_path_Some [OF assms] have "has_node (topology c) s"
    and "p \<in> set (simple_paths (topology c) s d)" by blast+
  then show "walk (topology c) s d p" and "distinct p"
    by (simp_all add: simple_paths_iff)
qed

lemma covered_path_keys:
  assumes "edges_covered c" and "walk (topology c) s d p"
  shows "set (path_edges p) \<union> prod.swap ` set (path_edges p) \<subseteq> dom (link_utilization c)"
proof -
  have "(a, b) \<in> dom (link_utilization c) \<and> (b, a) \<in> dom (link_utilization c)"
    if "(a, b) \<in> set (path_edges p)" for a b
  proof -
    from assms(2) that have "has_edge (topology c) a b"
      by (auto simp: walk_def list_all_iff)
    with assms(1) show ?thesis by (auto simp: edges_covered_def)
  qed
  note keys = this
  show ?thesis
  proof (intro Un_least subsetI)
    fix e assume e: "e \<in> set (path_edges p)"
    obtain a b where "e = (a, b)" by (cases e)
    with e show "e \<in> dom (link_utilization c)" using keys by blast
  next
    fix e assume "e \<in> prod.swap ` set (path_edges p)"
    then obtain a b where "(a, b) \<in> set (path_edges p)" and "e = (b, a)" by auto
    then show "e \<in> dom (link_utilization c)" using keys by blast
  qed
qed

lemma inject_props:
  assumes "inject_traffic_flow c s d ty bw = (r, c')"
  shows "topology c' = topology c"
    and "dom (link_utilization c') = dom (link_utilization c)"
    and "edges_covered c \<Longrightarrow> r \<noteq> InjectRaised KeyError"
proof -
  show "topology c' = topology c"
    using assms
    by (auto simp: inject_traffic_flow_def Let_def split: if_splits sum.splits option.splits prod.splits)
  show "dom (link_utilization c') = dom (link_utilization c)"
    using assms dom_reserve
    by (auto simp: inject_traffic_flow_def Let_def split: if_splits sum.splits option.splits prod.splits)
       (metis dom_reserve snd_conv domI domD)+
  show "r \<noteq> InjectRaised KeyError" if cov: "edges_covered c"
  proof
    assume r: "r = InjectRaised KeyError"
    show False
    proof (cases "compute_path c s d ty")
      case (Inl e)
      then have "e = ValueError" by (simp add: compute_path_raises)
      with assms Inl r show False
        by (auto simp: inject_traffic_flow_def split: if_splits)
    next
      case (Inr po)
      show False
      proof (cases po)
        case None
        with assms Inr r show False by (auto simp: inject_traffic_flow_def split: if_splits)
      next
        case (Some p)
        with Inr have cp: "compute_path c s d ty = Inr (Some p)" by simp
        from covered_path_keys [OF cov compute_path_walk(1) [OF cp]]
        have "fst (reserve (link_utilization c) p bw) = None" by (rule reserve_no_error)
        with assms cp r show False
          by (auto simp: inject_traffic_flow_def Let_def split: if_splits prod.splits option.splits)
      qed
    qed
  qed
qed

subsection \<open>The rerouting loop\<close>

lemma readmit_flow_props:
  assumes "readmit_flow c f = (e, rs, c', f')"
  shows "topology c' = topology c"
    and "dom (link_utilization c') = dom (link_utilization c)"
    and "e = None \<Longrightarrow> map report_endpoints rs = [(src f, dst f)]"
    and "edges_covered c \<Longrightarrow> e \<noteq> Some KeyError"
proof -
  let ?cp = "compute_path c (src f) (dst f) (traffic_type f)"
  have "(\<exists>x. ?cp = Inl x) \<or> (?cp = Inr None \<or> ?cp = Inr (Some [])) \<or>
        (\<exists>p. ?cp = Inr (Some p) \<and> p \<noteq> [])"
    by (metis sum.exhaust option.exhaust)
  then consider (raised) x where "?cp = Inl x"
    | (none) "?cp = Inr None \<or> ?cp = Inr (Some [])"
    | (found) p where "?cp = Inr (Some p)" "p \<noteq> []"
    by blast
  then have "topology c' = topology c \<and> dom (link_utilization c') = dom (link_utilization c) \<and>
    (e = None \<longrightarrow> map report_endpoints rs = [(src f, dst f)]) \<and>
    (edges_covered c \<longrightarrow> e \<noteq> Some KeyError)"
  proof cases
    case raised
    then have "x = ValueError" by (simp add: compute_path_raises)
    with raised assms show ?thesis by (auto simp: readmit_flow_def)
  next
    case none
    with assms show ?thesis by (auto simp: readmit_flow_def)
  next
    case found
    obtain e1 lu1 where r: "reserve (link_utilization c) p (bandwidth f) = (e1, lu1)"
      by (cases "reserve (link_utilization c) p (bandwidth f)")
    with found assms have eq: "e = e1" "rs = [Reconfigured (src f) (dst f) p]"
      "c' = c\<lparr>link_utilization := lu1\<rparr>"
      by (auto simp: readmit_flow_def)
    have d: "dom lu1 = dom (link_utilization c)"
      using dom_reserve [of "link_utilization c" p "bandwidth f"] r by simp
    have "e1 = None" if cov: "edges_covered c"
    proof -
      from covered_path_keys [OF cov compute_path_walk(1) [OF found(1)]]
      have "fst (reserve (link_utilization c) p (bandwidth f)) = None"
        by (rule reserve_no_error)
      with r show ?thesis by simp
    qed
    with eq d show ?thesis by auto
  qed
  then show "topology c' = topology c"
    and "dom (link_utilization c') = dom (link_utilization c)"
    and "e = None \<Longrightarrow> map report_endpoints rs = [(src f, dst f)]"
    and "edges_covered c \<Longrightarrow> e \<noteq> Some KeyError"
    by blast+
qed

lemma reroute_flow_released:
  "reroute_flow u v c f =
     (if u \<in> set (path f) \<and> v \<in> set (path f)
      then readmit_flow
             (c\<lparr>link_utilization := released (link_utilization c) (path f) (bandwidth f)\<rparr>) f
      else (None, [], c, f))"
  by (simp add: reroute_flow_def release_released)

lemma reroute_flow_props:
  assumes "reroute_flow u v c f = (e, rs, c', f')"
  shows "topology c' = topology c"
    and "dom (link_utilization c') = dom (link_utilization c)"
    and "e = None \<Longrightarrow> map report_endpoints rs =
           (if u \<in> set (path f) \<and> v \<in> set (path f) then [(src f, dst f)] else [])"
    and "edges_covered c \<Longrightarrow> e \<noteq> Some KeyError"
    and "\<not> (u \<in> set (path f) \<and> v \<in> set (path f)) \<Longrightarrow> f' = f"
proof -
  let ?c1 = "c\<lparr>link_utilization := released (link_utilization c) (path f) (bandwidth f)\<rparr>"
  have c1: "topology ?c1 = topology c" "dom (link_utilization ?c1) = dom (link_utilization c)"
    by simp_all
  have cov1: "edges_covered ?c1 = edges_covered c"
    using c1 by (rule edges_covered_cong)
  have all: "topology c' = topology c \<and>
      dom (link_utilization c') = dom (link_utilization c) \<and>
      (e = None \<longrightarrow> map report_endpoints rs =
           (if u \<in> set (path f) \<and> v \<in> set (path f) then [(src f, dst f)] else [])) \<and>
      (edges_covered c \<longrightarrow> e \<noteq> Some KeyError) \<and>
      (\<not> (u \<in> set (path f) \<and> v \<in> set (path f)) \<longrightarrow> f' = f)"
  proof (cases "u \<in> set (path f) \<and> v \<in> set (path f)")
    case True
    with assms have r: "readmit_flow ?c1 f = (e, rs, c', f')"
      by (simp add: reroute_flow_released)
    from readmit_flow_props [OF r] c1 cov1 True
    show ?thesis
      by simp
  next
    case False
    with assms show ?thesis
      by (auto simp: reroute_flow_released)
  qed
  then show "topology c' = topology c"
    and "dom (link_utilization c') = dom (link_utilization c)"
    and "e = None \<Longrightarrow> map report_endpoints rs =
           (if u \<in> set (path f) \<and> v \<in> set (path f) then [(src f, dst f)] else [])"
    and "edges_covered c \<Longrightarrow> e \<noteq> Some KeyError"
    and "\<not> (u \<in> set (path f) \<and> v \<in> set (path f)) \<Longrightarrow> f' = f"
    by blast+
qed

lemma reroute_flows_props:
  "reroute_flows u v c fs = (e, rs, c', fs') \<Longrightarrow>
   topology c' = topology c \<and>
   dom (link_utilization c') = dom (link_utilization c) \<and>
   length fs' = length fs \<and>
   (edges_covered c \<longrightarrow> e \<noteq> Some KeyError) \<and>
   (e = None \<longrightarrow>
      map report_endpoints rs =
        map (\<lambda>f. (src f, dst f)) (filter (\<lambda>f. u \<in> set (path f) \<and> v \<in> set (path f)) fs)) \<and>
   (\<forall>i < length fs. \<not> (u \<in> set (path (fs ! i)) \<and> v \<in> set (path (fs ! i))) \<longrightarrow> fs' ! i = fs ! i)"
proof (induction fs arbitrary: c e rs c' fs')
  case Nil
  then show ?case by simp
next
  case (Cons f fs)
  obtain e1 rs1 c1 f1 where one: "reroute_flow u v c f = (e1, rs1, c1, f1)"
    by (cases "reroute_flow u v c f") auto
  note p1 = reroute_flow_props [OF one]
  have cov1: "edges_covered c1 = edges_covered c"
    using p1(1,2) by (rule edges_covered_cong)
  show ?case
  proof (cases e1)
    case (Some x)
    with one Cons.prems have eq: "e = Some x" "rs = rs1" "c' = c1" "fs' = f1 # fs"
      by simp_all
    have "fs' ! i = (f # fs) ! i"
      if "i < length (f # fs)" "\<not> (u \<in> set (path ((f # fs) ! i)) \<and> v \<in> set (path ((f # fs) ! i)))"
      for i
      using that p1(5) eq(4) by (cases i) auto
    with eq p1 Some show ?thesis by auto
  next
    case None
    obtain e2 rs2 c2 fs2 where rest: "reroute_flows u v c1 fs = (e2, rs2, c2, fs2)"
      by (cases "reroute_flows u v c1 fs") auto
    with one None Cons.prems have eq: "e = e2" "rs = rs1 @ rs2" "c' = c2" "fs' = f1 # fs2"
      by simp_all
    note IH = Cons.IH [OF rest]
    have "fs' ! i = (f # fs) ! i"
      if "i < length (f # fs)" "\<not> (u \<in> set (path ((f # fs) ! i)) \<and> v \<in> set (path ((f # fs) ! i)))"
      for i
      using that p1(5) eq(4) IH by (cases i) auto
    moreover have "map report_endpoints rs =
        map (\<lambda>f. (src f, dst f))
          (filter (\<lambda>f. u \<in> set (path f) \<and> v \<in> set (path f)) (f # fs))"
      if "e = None"
      using that eq IH p1(3) [OF None] by simp
    ultimately show ?thesis
      using eq IH p1(1,2,4) cov1 None by auto
  qed
qed

lemma remove_link_covered: "edges_covered c \<Longrightarrow> edges_covered (remove_link c u v)"
  unfolding edges_covered_def remove_link_def has_edge_def graph_remove_edge_def
  by (auto split: if_splits)

lemma simulate_link_failure_props:
  assumes "simulate_link_failure c u v = (r, c')"
  shows "edges_covered c \<Longrightarrow> edges_covered c' \<and> r \<noteq> FailRaised KeyError"
    and "r \<noteq> FailLinkNotFound \<Longrightarrow>
           has_edge (topology c) u v \<and>
           topology c' = graph_remove_edge (topology c) u v \<and>
           link_utilization c' (u, v) = None \<and> link_utilization c' (v, u) = None \<and>
           length (flows c') = length (flows c) \<and>
           (\<forall>i < length (flows c).
              \<not> (u \<in> set (path (flows c ! i)) \<and> v \<in> set (path (flows c ! i))) \<longrightarrow>
              flows c' ! i = flows c ! i)"
    and "r = FailDone rs \<Longrightarrow>
           map report_endpoints rs =
             map (\<lambda>f. (src f, dst f))
               (filter (\<lambda>f. u \<in> set (path f) \<and> v \<in> set (path f)) (flows c))"
proof -
  show "edges_covered c \<Longrightarrow> edges_covered c' \<and> r \<noteq> FailRaised KeyError"
  proof (cases "has_edge (topology c) u v")
    case False
    assume "edges_covered c"
    with False assms show ?thesis by (simp add: simulate_link_failure_def)
  next
    case True
    assume cov: "edges_covered c"
    let ?c0 = "remove_link c u v"
    obtain e rs1 c1 fs where loop: "reroute_flows u v ?c0 (flows ?c0) = (e, rs1, c1, fs)"
      by (cases "reroute_flows u v ?c0 (flows ?c0)") auto
    note p = reroute_flows_props [OF loop]
    from True assms loop have r: "r = (case e of None \<Rightarrow> FailDone rs1 | Some x \<Rightarrow> FailRaised x)"
      and c': "c' = c1\<lparr>flows := fs\<rparr>"
      by (simp_all add: simulate_link_failure_def Let_def)
    have cov0: "edges_covered ?c0" using cov by (rule remove_link_covered)
    have "edges_covered c' = edges_covered ?c0"
      using p c' by (intro edges_covered_cong) simp_all
    moreover from p cov0 have "e \<noteq> Some KeyError" by blast
    then have "r \<noteq> FailRaised KeyError" using r by (cases e) auto
    ultimately show ?thesis using cov0 by simp
  qed
next
  assume nf: "r \<noteq> FailLinkNotFound"
  with assms have he: "has_edge (topology c) u v"
    by (auto simp: simulate_link_failure_def split: if_splits)
  let ?c0 = "remove_link c u v"
  obtain e rs1 c1 fs where loop: "reroute_flows u v ?c0 (flows ?c0) = (e, rs1, c1, fs)"
    by (cases "reroute_flows u v ?c0 (flows ?c0)") auto
  note p = reroute_flows_props [OF loop]
  from he assms loop have c': "c' = c1\<lparr>flows := fs\<rparr>"
    by (simp_all add: simulate_link_failure_def Let_def)
  have c0: "topology ?c0 = graph_remove_edge (topology c) u v" "flows ?c0 = flows c"
    "(u, v) \<notin> dom (link_utilization ?c0)" "(v, u) \<notin> dom (link_utilization ?c0)"
    using he by (simp_all add: remove_link_def)
  from p c0(3,4) have "(u, v) \<notin> dom (link_utilization c1)" "(v, u) \<notin> dom (link_utilization c1)"
    by simp_all
  then have "link_utilization c' (u, v) = None" "link_utilization c' (v, u) = None"
    using c' by (simp_all add: domIff)
  with he p c0 c'
  show "has_edge (topology c) u v \<and>
           topology c' = graph_remove_edge (topology c) u v \<and>
           link_utilization c' (u, v) = None \<and> link_utilization c' (v, u) = None \<and>
           length (flows c') = length (flows c) \<and>
           (\<forall>i < length (flows c).
              \<not> (u \<in> set (path (flows c ! i)) \<and> v \<in> set (path (flows c ! i))) \<longrightarrow>
              flows c' ! i = flows c ! i)"
    by simp
next
  assume fin: "r = FailDone rs"
  with assms have he: "has_edge (topology c) u v"
    by (auto simp: simulate_link_failure_def split: if_splits)
  let ?c0 = "remove_link c u v"
  obtain e rs1 c1 fs where loop: "reroute_flows u v ?c0 (flows ?c0) = (e, rs1, c1, fs)"
    by (cases "reroute_flows u v ?c0 (flows ?c0)") auto
  note p = reroute_flows_props [OF loop]
  from he assms loop have r: "r = (case e of None \<Rightarrow> FailDone rs1 | Some x \<Rightarrow> FailRaised x)"
    by (simp_all add: simulate_link_failure_def Let_def)
  with fin have "e = None" "rs1 = rs" by (cases e; simp)+
  moreover have "flows ?c0 = flows c" by (simp add: remove_link_def)
  ultimately show "map report_endpoints rs =
             map (\<lambda>f. (src f, dst f))
               (filter (\<lambda>f. u \<in> set (path f) \<and> v \<in> set (path f)) (flows c))"
    using p by simp
qed

subsection \<open>Invariants of the commands\<close>

lemma add_node_covered: "edges_covered c \<Longrightarrow> edges_covered (add_node c n)"
  unfolding edges_covered_def add_node_def has_edge_def graph_add_node_def
  by (auto split: if_splits)

lemma remove_node_covered: "edges_covered c \<Longrightarrow> edges_covered (remove_node c n)"
  unfolding edges_covered_def remove_node_def has_edge_def graph_remove_node_def
  by (auto split: if_splits)

lemma graph_add_edge_adj:
  "g_adj (graph_add_edge G u v w) = (g_adj G)((u, v) \<mapsto> w, (v, u) \<mapsto> w)"
  by (simp add: graph_add_edge_def graph_add_node_def Let_def)

lemma add_link_covered:
  assumes "edges_covered c"
  shows "edges_covered (add_link c u v w)"
proof (cases "has_node (topology c) u \<and> has_node (topology c) v")
  case False
  with assms show ?thesis by (auto simp: add_link_def)
next
  case True
  let ?c' = "add_link c u v w"
  have lu: "link_utilization ?c' = (link_utilization c)((u, v) \<mapsto> 0, (v, u) \<mapsto> 0)"
    and adj: "g_adj (topology ?c') = (g_adj (topology c))((u, v) \<mapsto> w, (v, u) \<mapsto> w)"
    using True by (simp_all add: add_link_def graph_add_edge_adj)
  have d: "dom (link_utilization ?c') = insert (v, u) (insert (u, v) (dom (link_utilization c)))"
    unfolding lu by simp
  have "(a, b) \<in> dom (link_utilization ?c') \<and> (b, a) \<in> dom (link_utilization ?c')"
    if e: "has_edge (topology ?c') a b" for a b
  proof (cases "(a, b) = (u, v) \<or> (a, b) = (v, u)")
    case True
    then have "(b, a) = (v, u) \<or> (b, a) = (u, v)" by blast
    with True show ?thesis unfolding d by blast
  next
    case False
    with e have "g_adj (topology c) (a, b) \<noteq> None"
      unfolding has_edge_def adj by (metis fun_upd_other)
    then have "has_edge (topology c) a b" by (simp add: has_edge_def)
    with assms have "(a, b) \<in> dom (link_utilization c) \<and> (b, a) \<in> dom (link_utilization c)"
      unfolding edges_covered_def by (metis domIff)
    then show ?thesis unfolding d by blast
  qed
  then show ?thesis unfolding edges_covered_def by (metis domIff)
qed

lemma execute_covered: "edges_covered c \<Longrightarrow> edges_covered (execute c cmd)"
proof (cases cmd)
  case (InjectTraffic s d ty bw)
  assume cov: "edges_covered c"
  obtain r c' where i: "inject_traffic_flow c s d ty bw = (r, c')"
    by (cases "inject_traffic_flow c s d ty bw")
  from inject_props(1,2) [OF i] have "edges_covered c' = edges_covered c"
    by (rule edges_covered_cong)
  with cov i InjectTraffic show ?thesis by simp
next
  case (SimulateLinkFailure u v)
  assume cov: "edges_covered c"
  obtain r c' where i: "simulate_link_failure c u v = (r, c')"
    by (cases "simulate_link_failure c u v")
  from simulate_link_failure_props(1) [OF i cov] i SimulateLinkFailure show ?thesis by simp
qed (simp_all add: add_node_covered remove_node_covered add_link_covered remove_link_covered)

lemma foldl_execute_covered:
  "edges_covered c \<Longrightarrow> edges_covered (foldl execute c cmds)"
  by (induction cmds arbitrary: c) (simp_all add: execute_covered)

lemma run_covered: "edges_covered (run cmds)"
  unfolding run_def
  by (rule foldl_execute_covered) (simp add: edges_covered_def new_controller_def has_edge_def)

lemma inject_ledger:
  "link_utilization (snd (inject_traffic_flow c s d ty bw)) = link_utilization c \<or>
   (\<exists>p. link_utilization (snd (inject_traffic_flow c s d ty bw))
          = snd (reserve (link_utilization c) p bw))"
proof (cases "\<exists>p. compute_path c s d ty = Inr (Some p) \<and> p \<noteq> [] \<and>
                 has_node (topology c) s \<and> has_node (topology c) d")
  case True
  then obtain p where p: "compute_path c s d ty = Inr (Some p)" "p \<noteq> []"
    "has_node (topology c) s" "has_node (topology c) d"
    by blast
  then have "link_utilization (snd (inject_traffic_flow c s d ty bw))
          = snd (reserve (link_utilization c) p bw)"
    by (cases "reserve (link_utilization c) p bw")
       (auto simp: inject_traffic_flow_def Let_def split: option.splits)
  then show ?thesis by blast
next
  case False
  then have "snd (inject_traffic_flow c s d ty bw) = c"
    by (auto simp: inject_traffic_flow_def Let_def split: sum.splits option.splits)
  then show ?thesis by simp
qed

lemma execute_nonneg:
  assumes "admission_only cmd" and "\<forall>k x. link_utilization c k = Some x \<longrightarrow> 0 \<le> x"
  shows "\<forall>k x. link_utilization (execute c cmd) k = Some x \<longrightarrow> 0 \<le> x"
proof (cases cmd)
  case (AddNode n)
  with assms(2) show ?thesis by (simp add: add_node_def del: split_paired_All)
next
  case (RemoveNode n)
  with assms(2) show ?thesis by (simp add: remove_node_def del: split_paired_All)
next
  case (AddLink u v w)
  have "0 \<le> x" if "link_utilization (add_link c u v w) k = Some x" for k x
  proof (cases "k = (u, v) \<or> k = (v, u)")
    case True
    with that show ?thesis by (auto simp: add_link_def split: if_splits intro: assms(2) [rule_format])
  next
    case False
    with that have "link_utilization c k = Some x"
      by (auto simp: add_link_def split: if_splits)
    with assms(2) show ?thesis by blast
  qed
  with AddLink show ?thesis by simp
next
  case (RemoveLink u v)
  have "0 \<le> x" if "link_utilization (remove_link c u v) k = Some x" for k x
  proof -
    from that have "link_utilization c k = Some x"
      by (auto simp: remove_link_def split: if_splits)
    with assms(2) show ?thesis by blast
  qed
  with RemoveLink show ?thesis by simp
next
  case (InjectTraffic s d ty bw)
  with assms(1) have bw: "0 \<le> bw" by simp
  have "0 \<le> x" if "link_utilization (snd (inject_traffic_flow c s d ty bw)) k = Some x" for k x
    using inject_ledger [of c s d ty bw] that assms(2) reserve_nonneg [OF bw assms(2)]
    by metis
  with InjectTraffic show ?thesis by simp
next
  case (SimulateLinkFailure u v)
  with assms(1) show ?thesis by simp
next
  case (QueryRouting s d)
  with assms(2) show ?thesis by (simp del: split_paired_All)
qed

lemma foldl_execute_nonneg:
  "list_all admission_only cmds \<Longrightarrow>
   \<forall>k x. link_utilization c k = Some x \<longrightarrow> 0 \<le> x \<Longrightarrow>
   \<forall>k x. link_utilization (foldl execute c cmds) k = Some x \<longrightarrow> 0 \<le> x"
proof (induction cmds arbitrary: c)
  case Nil
  then show ?case by (simp del: split_paired_All)
next
  case (Cons cmd cmds)
  from Cons.prems have "admission_only cmd" "list_all admission_only cmds" by simp_all
  from Cons.IH [OF this(2) execute_nonneg [OF this(1) Cons.prems(2)]]
  show ?case by (simp del: split_paired_All)
qed

subsection \<open>The ledger and the flows after a completed failure handling\<close>



lemma adjusted_zero [simp]: "adjusted lu (\<lambda>k. 0) = lu"
  by (rule ext) (simp add: adjusted_def split: option.splits)







subsection \<open>When failure handling completes\<close>







subsection \<open>Path selection (claim C1)\<close>

text \<open>
  Claim C1, amended. Whenever no link of negative weight leaves a node reachable from the
  source (so the shortest-path search does not raise), \<open>compute_path\<close> returns no route
  exactly when the source or the destination is absent or no walk joins them; otherwise it
  returns a simple path from source to destination whose total weight is minimal among
  all walks between them and whose ledger sum (missing entries read as 0) is minimal
  among all simple paths of that weight.
\<close>

theorem compute_path_optimal:
  assumes "\<not> negative_edge_seen (topology c) s"
  shows "(compute_path c s d ty = Inr None \<longleftrightarrow>
            \<not> has_node (topology c) s \<or> \<not> has_node (topology c) d \<or>
            \<not> (\<exists>q. walk (topology c) s d q)) \<and>
         (compute_path c s d ty \<noteq> Inr None \<longrightarrow>
            (\<exists>p. compute_path c s d ty = Inr (Some p) \<and>
                 walk (topology c) s d p \<and> distinct p \<and>
                 (\<forall>q. walk (topology c) s d q \<longrightarrow>
                        path_weight (topology c) p \<le> path_weight (topology c) q) \<and>
                 (\<forall>q. walk (topology c) s d q \<and> distinct q \<and>
                        path_weight (topology c) q = path_weight (topology c) p \<longrightarrow>
                        path_utilization (link_utilization c) p
                          \<le> path_utilization (link_utilization c) q)))"
proof (intro conjI impI)
  let ?G = "topology c"
  show "compute_path c s d ty = Inr None \<longleftrightarrow>
            \<not> has_node ?G s \<or> \<not> has_node ?G d \<or> \<not> (\<exists>q. walk ?G s d q)"
  proof (cases "has_node ?G s")
    case False
    then show ?thesis by (simp add: compute_path_None)
  next
    case True
    have "simple_paths ?G s d = [] \<longleftrightarrow> \<not> (\<exists>q. walk ?G s d q)"
    proof
      assume e: "simple_paths ?G s d = []"
      show "\<not> (\<exists>q. walk ?G s d q)"
      proof
        assume "\<exists>q. walk ?G s d q"
        then obtain q where "walk ?G s d q" by blast
        from walk_shortcut [OF this] obtain p where "walk ?G s d p" "distinct p" by blast
        with True have "p \<in> set (simple_paths ?G s d)" by (simp add: simple_paths_iff)
        with e show False by simp
      qed
    next
      assume n: "\<not> (\<exists>q. walk ?G s d q)"
      show "simple_paths ?G s d = []"
      proof (cases "simple_paths ?G s d")
        case Nil
        then show ?thesis .
      next
        case (Cons p ps)
        then have "p \<in> set (simple_paths ?G s d)" by simp
        with True n show ?thesis by (simp add: simple_paths_iff)
      qed
    qed
    with assms show ?thesis by (simp add: compute_path_None)
  qed
next
  let ?G = "topology c"
  assume nn: "compute_path c s d ty \<noteq> Inr None"
  have "\<And>e. compute_path c s d ty \<noteq> Inl e" using assms by (simp add: compute_path_raises)
  with nn obtain p where p: "compute_path c s d ty = Inr (Some p)"
    by (cases "compute_path c s d ty") auto
  note cp = compute_path_Some [OF p]
  from cp have s: "has_node ?G s" by blast
  from cp s have w: "walk ?G s d p" "distinct p" by (simp_all add: simple_paths_iff)
  have light: "path_weight ?G p \<le> path_weight ?G q" if "walk ?G s d q" for q
  proof -
    from walk_simple_lighter [OF assms that] obtain r where r: "walk ?G s d r" "distinct r"
      "path_weight ?G r \<le> path_weight ?G q" by blast
    with s have "r \<in> set (simple_paths ?G s d)" by (simp add: simple_paths_iff)
    with cp have "path_weight ?G p \<le> path_weight ?G r" by blast
    with r show ?thesis by simp
  qed
  have util: "path_utilization (link_utilization c) p \<le> path_utilization (link_utilization c) q"
    if "walk ?G s d q \<and> distinct q \<and> path_weight ?G q = path_weight ?G p" for q
  proof -
    from that s have "q \<in> set (simple_paths ?G s d)" by (simp add: simple_paths_iff)
    with cp that show ?thesis by blast
  qed
  from p w light util
  show "\<exists>p. compute_path c s d ty = Inr (Some p) \<and>
                 walk ?G s d p \<and> distinct p \<and>
                 (\<forall>q. walk ?G s d q \<longrightarrow> path_weight ?G p \<le> path_weight ?G q) \<and>
                 (\<forall>q. walk ?G s d q \<and> distinct q \<and> path_weight ?G q = path_weight ?G p \<longrightarrow>
                        path_utilization (link_utilization c) p
                          \<le> path_utilization (link_utilization c) q)"
    by blast
qed

theorem compute_path_optimal_witness:
  "\<not> negative_edge_seen (topology (run triangle_commands)) ''a'' \<and>
   compute_path (run triangle_commands) ''a'' ''c'' ''data'' = Inr (Some [''a'', ''b'', ''c'']) \<and>
   walk (topology (run triangle_commands)) ''a'' ''c'' [''a'', ''c''] \<and>
   path_weight (topology (run triangle_commands)) [''a'', ''b'', ''c'']
     \<le> path_weight (topology (run triangle_commands)) [''a'', ''c'']"
proof -
  have h: "\<not> negative_edge_seen (topology (run triangle_commands)) ''a''"
    by code_simp
  have cp: "compute_path (run triangle_commands) ''a'' ''c'' ''data''
              = Inr (Some [''a'', ''b'', ''c''])"
    by code_simp
  have w: "walk (topology (run triangle_commands)) ''a'' ''c'' [''a'', ''c'']"
    by code_simp
  from compute_path_optimal [OF h, of "''c''" "''data''"] cp h w show ?thesis
    by auto
qed

text \<open>
  Claim C1 as stated fails: with a link of weight \<open>-1\<close> between two existing nodes the
  destination is reachable, yet the call raises instead of returning a path.
\<close>

theorem compute_path_negative_weight_raises:
  "compute_path (run [AddNode ''a'', AddNode ''b'', AddLink ''a'' ''b'' (- 1)])
     ''a'' ''b'' ''data'' = Inl ValueError \<and>
   walk (topology (run [AddNode ''a'', AddNode ''b'', AddLink ''a'' ''b'' (- 1)]))
     ''a'' ''b'' [''a'', ''b'']"
  by code_simp

subsection \<open>Failed admission (claim C5)\<close>

text \<open>
  Claim C5. An admission that fails because an endpoint is absent or because the path
  selector finds no route returns the controller unchanged: topology, flows and ledger.
\<close>

theorem inject_failure_leaves_state:
  "(\<not> has_node (topology c) s \<or> \<not> has_node (topology c) d \<longrightarrow>
      inject_traffic_flow c s d ty bw = (InjectNodeMissing, c)) \<and>
   (has_node (topology c) s \<and> has_node (topology c) d \<and> compute_path c s d ty = Inr None \<longrightarrow>
      inject_traffic_flow c s d ty bw = (InjectNoRoute, c)) \<and>
   (fst (inject_traffic_flow c s d ty bw) = InjectNodeMissing \<or>
    fst (inject_traffic_flow c s d ty bw) = InjectNoRoute \<longrightarrow>
      snd (inject_traffic_flow c s d ty bw) = c)"
  by (auto simp: inject_traffic_flow_def Let_def split: sum.splits option.splits prod.splits)

theorem inject_failure_leaves_state_witness:
  "\<not> has_node (topology new_controller) ''a'' \<and>
   inject_traffic_flow new_controller ''a'' ''b'' ''data'' 10 = (InjectNodeMissing, new_controller) \<and>
   has_node (topology (run [AddNode ''a'', AddNode ''b''])) ''a'' \<and>
   has_node (topology (run [AddNode ''a'', AddNode ''b''])) ''b'' \<and>
   inject_traffic_flow (run [AddNode ''a'', AddNode ''b'']) ''a'' ''b'' ''data'' 10
     = (InjectNoRoute, run [AddNode ''a'', AddNode ''b''])"
proof -
  have a: "\<not> has_node (topology new_controller) ''a''" by code_simp
  have b: "has_node (topology (run [AddNode ''a'', AddNode ''b''])) ''a''"
    "has_node (topology (run [AddNode ''a'', AddNode ''b''])) ''b''"
    "compute_path (run [AddNode ''a'', AddNode ''b'']) ''a'' ''b'' ''data'' = Inr None"
    by code_simp+
  from a b inject_failure_leaves_state [of new_controller "''a''" "''b''" "''data''" 10]
    inject_failure_leaves_state [of "run [AddNode ''a'', AddNode ''b'']" "''a''" "''b''" "''data''" 10]
  show ?thesis by blast
qed

subsection \<open>Re-creating a link (claim C8)\<close>

text \<open>
  Claim C8. On existing nodes \<open>u\<close> and \<open>v\<close>, adding the link, alone or after removing
  it, leaves both directional ledger entries present and equal to 0, whatever they held.
\<close>

theorem add_link_resets_ledger:
  assumes "has_node (topology c) u" and "has_node (topology c) v"
  shows "link_utilization (add_link c u v w) (u, v) = Some 0 \<and>
         link_utilization (add_link c u v w) (v, u) = Some 0 \<and>
         link_utilization (add_link (remove_link c u v) u v w) (u, v) = Some 0 \<and>
         link_utilization (add_link (remove_link c u v) u v w) (v, u) = Some 0"
proof -
  have reset: "link_utilization (add_link c' u v w) (u, v) = Some 0 \<and>
               link_utilization (add_link c' u v w) (v, u) = Some 0"
    if "has_node (topology c') u" and "has_node (topology c') v" for c'
    unfolding add_link_def using that by simp
  have "g_nodes (topology (remove_link c u v)) = g_nodes (topology c)"
    by (simp add: remove_link_def graph_remove_edge_def)
  then have "has_node (topology (remove_link c u v)) u" "has_node (topology (remove_link c u v)) v"
    using assms by (simp_all add: has_node_def)
  from reset [OF assms] reset [OF this] show ?thesis
    by blast
qed

theorem add_link_resets_ledger_witness:
  "has_node (topology (run triangle_flow_commands)) ''a'' \<and>
   has_node (topology (run triangle_flow_commands)) ''b'' \<and>
   link_utilization (run triangle_flow_commands) (''a'', ''b'') = Some 10 \<and>
   link_utilization (add_link (remove_link (run triangle_flow_commands) ''a'' ''b'') ''a'' ''b'' 1)
     (''a'', ''b'') = Some 0 \<and>
   link_utilization (add_link (run triangle_flow_commands) ''a'' ''b'' 1) (''b'', ''a'') = Some 0"
proof -
  have h: "has_node (topology (run triangle_flow_commands)) ''a''"
    "has_node (topology (run triangle_flow_commands)) ''b''"
    "link_utilization (run triangle_flow_commands) (''a'', ''b'') = Some 10"
    by code_simp+
  from h add_link_resets_ledger [OF h(1) h(2), of 1] show ?thesis by blast
qed

subsection \<open>Admission from a node to itself (claim C10)\<close>

text \<open>
  Claim C10, amended. For an existing node \<open>s\<close> from which no link of negative weight
  can be reached, admitting a flow from \<open>s\<close> to \<open>s\<close> succeeds with the path \<open>[s]\<close>,
  appends that flow and changes neither the ledger nor the topology.
\<close>

theorem inject_same_node:
  assumes "has_node (topology c) s" and "\<not> negative_edge_seen (topology c) s"
  shows "inject_traffic_flow c s s ty bw =
           (Injected [s],
            c\<lparr>flows := flows c @
                 [\<lparr>src = s, dst = s, traffic_type = ty, bandwidth = bw, path = [s]\<rparr>]\<rparr>)"
proof -
  have "all_shortest_paths (topology c) s s = Inr [[s]]"
    using assms by (simp add: all_shortest_paths_def simple_paths_def)
  then have "compute_path c s s ty = Inr (Some [s])"
    using assms(1) by (simp add: compute_path_def)
  with assms(1) show ?thesis
    by (simp add: inject_traffic_flow_def)
qed

theorem inject_same_node_witness:
  "has_node (topology (run triangle_commands)) ''a'' \<and>
   \<not> negative_edge_seen (topology (run triangle_commands)) ''a'' \<and>
   fst (inject_traffic_flow (run triangle_commands) ''a'' ''a'' ''data'' 10) = Injected [''a''] \<and>
   link_utilization (snd (inject_traffic_flow (run triangle_commands) ''a'' ''a'' ''data'' 10))
     = link_utilization (run triangle_commands)"
proof -
  have h: "has_node (topology (run triangle_commands)) ''a''"
    "\<not> negative_edge_seen (topology (run triangle_commands)) ''a''"
    by code_simp+
  from h inject_same_node [OF h, of "''data''" 10] show ?thesis by simp
qed

text \<open>
  Claim C10 as stated fails: the node exists, but a link of weight \<open>-1\<close> at it makes
  the shortest-path search raise before the one-node path is produced.
\<close>

theorem inject_same_node_negative_weight_raises:
  "has_node (topology (run [AddNode ''a'', AddNode ''b'', AddLink ''a'' ''b'' (- 1)])) ''a'' \<and>
   fst (inject_traffic_flow (run [AddNode ''a'', AddNode ''b'', AddLink ''a'' ''b'' (- 1)])
          ''a'' ''a'' ''data'' 10) = InjectRaised ValueError"
  by code_simp

subsection \<open>The failure scenario of the specification (claim C6)\<close>

text \<open>
  Claim C6. With nodes a, b, c, links a-b and b-c of weight 1 and a-c of weight 5, and a
  flow of bandwidth 10 admitted on [a, b, c], failing the link a-b reroutes the flow to
  [a, c]; the entries of a-b are gone, those of a-c hold 10 and those of b-c hold the
  released value 0.
\<close>

theorem triangle_failure_reroutes:
  "map path (flows (run triangle_flow_commands)) = [[''a'', ''b'', ''c'']] \<and>
   map bandwidth (flows (run triangle_flow_commands)) = [10] \<and>
   fst (simulate_link_failure (run triangle_flow_commands) ''a'' ''b'')
     = FailDone [Reconfigured ''a'' ''c'' [''a'', ''c'']] \<and>
   map path (flows (snd (simulate_link_failure (run triangle_flow_commands) ''a'' ''b'')))
     = [[''a'', ''c'']] \<and>
   map (link_utilization (snd (simulate_link_failure (run triangle_flow_commands) ''a'' ''b'')))
     [(''a'', ''b''), (''b'', ''a''), (''a'', ''c''), (''c'', ''a''), (''b'', ''c''), (''c'', ''b'')]
     = [None, None, Some 10, Some 10, Some 0, Some 0]"
  by code_simp

subsection \<open>Ledger entries and links (claim C2)\<close>

text \<open>
  Claim C2 does not hold of the code: \<open>remove_node\<close> deletes the incident links but,
  unlike \<open>remove_link\<close>, leaves their ledger entries. After adding a and b, linking
  them and removing a, the link is gone and both entries are still there.
\<close>

theorem remove_node_keeps_ledger_entries:
  "\<not> has_edge (topology (run [AddNode ''a'', AddNode ''b'', AddLink ''a'' ''b'' 1, RemoveNode ''a'']))
       ''a'' ''b'' \<and>
   \<not> has_edge (topology (run [AddNode ''a'', AddNode ''b'', AddLink ''a'' ''b'' 1, RemoveNode ''a'']))
       ''b'' ''a'' \<and>
   link_utilization (run [AddNode ''a'', AddNode ''b'', AddLink ''a'' ''b'' 1, RemoveNode ''a''])
     (''a'', ''b'') = Some 0 \<and>
   link_utilization (run [AddNode ''a'', AddNode ''b'', AddLink ''a'' ''b'' 1, RemoveNode ''a''])
     (''b'', ''a'') = Some 0"
  by code_simp

subsection \<open>Successful admission (claim C3)\<close>

text \<open>
  Claim C3. When \<open>inject_traffic_flow\<close> succeeds with path \<open>p\<close>, the new flow record
  with that path is appended to the flows, and for every consecutive pair \<open>(a, b)\<close> of
  \<open>p\<close> both ledger entries \<open>(a, b)\<close> and \<open>(b, a)\<close> existed before and are larger
  afterwards by exactly the bandwidth.
\<close>

theorem inject_success_updates:
  assumes "inject_traffic_flow c s d ty bw = (Injected p, c')"
  shows "flows c' = flows c @ [\<lparr>src = s, dst = d, traffic_type = ty, bandwidth = bw, path = p\<rparr>] \<and>
         compute_path c s d ty = Inr (Some p) \<and>
         (\<forall>(a, b) \<in> set (path_edges p).
            (\<exists>x. link_utilization c (a, b) = Some x \<and> link_utilization c' (a, b) = Some (x + bw)) \<and>
            (\<exists>y. link_utilization c (b, a) = Some y \<and> link_utilization c' (b, a) = Some (y + bw)))"
proof -
  from assms have cp: "compute_path c s d ty = Inr (Some p)"
    by (auto simp: inject_traffic_flow_def Let_def
             split: if_splits sum.splits option.splits prod.splits)
  with assms obtain lu where r: "reserve (link_utilization c) p bw = (None, lu)"
    and c': "c' = c\<lparr>flows := flows c @
                 [\<lparr>src = s, dst = d, traffic_type = ty, bandwidth = bw, path = p\<rparr>],
               link_utilization := lu\<rparr>"
    by (auto simp: inject_traffic_flow_def Let_def split: if_splits option.splits prod.splits)
  have lu: "lu = released (link_utilization c) p (- bw)"
    using r by (rule reserve_released)
  have dp: "distinct p" using cp by (rule compute_path_walk(2))
  have keys: "set (path_edges p) \<union> prod.swap ` set (path_edges p) \<subseteq> dom (link_utilization c)"
    using r reserve_success_keys [of "link_utilization c" p bw] by simp
  have "(\<exists>x. link_utilization c (a, b) = Some x \<and> link_utilization c' (a, b) = Some (x + bw)) \<and>
        (\<exists>y. link_utilization c (b, a) = Some y \<and> link_utilization c' (b, a) = Some (y + bw))"
    if e: "(a, b) \<in> set (path_edges p)" for a b
  proof -
    from e keys have "(a, b) \<in> dom (link_utilization c)" by blast
    then obtain x where x: "link_utilization c (a, b) = Some x" by blast
    from e have "(b, a) \<in> prod.swap ` set (path_edges p)" by force
    with keys have "(b, a) \<in> dom (link_utilization c)" by blast
    then obtain y where y: "link_utilization c (b, a) = Some y" by blast
    note cnt = count_path_edge [OF dp e]
    have "link_utilization c' (a, b) = Some (x + bw)"
      unfolding c' lu using x cnt(1) by (simp add: released_def)
    moreover have "link_utilization c' (b, a) = Some (y + bw)"
      unfolding c' lu using y cnt(2) by (simp add: released_def)
    ultimately show ?thesis using x y by blast
  qed
  with cp c' show ?thesis by auto
qed

theorem inject_success_updates_witness:
  "fst (inject_traffic_flow (run triangle_commands) ''a'' ''c'' ''data'' 10)
     = Injected [''a'', ''b'', ''c''] \<and>
   link_utilization (run triangle_commands) (''a'', ''b'') = Some 0 \<and>
   link_utilization (snd (inject_traffic_flow (run triangle_commands) ''a'' ''c'' ''data'' 10))
     (''a'', ''b'') = Some 10 \<and>
   link_utilization (snd (inject_traffic_flow (run triangle_commands) ''a'' ''c'' ''data'' 10))
     (''b'', ''a'') = Some 10 \<and>
   flows (snd (inject_traffic_flow (run triangle_commands) ''a'' ''c'' ''data'' 10))
     = flows (run triangle_commands) @
       [\<lparr>src = ''a'', dst = ''c'', traffic_type = ''data'', bandwidth = 10,
         path = [''a'', ''b'', ''c'']\<rparr>]"
proof -
  let ?c = "run triangle_commands"
  let ?r = "inject_traffic_flow ?c ''a'' ''c'' ''data'' 10"
  have f: "fst ?r = Injected [''a'', ''b'', ''c'']" by code_simp
  then have h: "?r = (Injected [''a'', ''b'', ''c''], snd ?r)"
    by (metis prod.collapse)
  have v: "link_utilization ?c (''a'', ''b'') = Some 0" "link_utilization ?c (''b'', ''a'') = Some 0"
    by code_simp+
  have e: "(''a'', ''b'') \<in> set (path_edges [''a'', ''b'', ''c''])" by simp
  from inject_success_updates [OF h] e v f show ?thesis
    by fastforce
qed

subsection \<open>Every link has its ledger entries (claim C9)\<close>

text \<open>
  Claim C9. After any sequence of commands from the empty controller, every edge of the
  topology has both of its directional ledger entries; hence neither admission nor link
  failure handling, run in such a state, ends in a \<open>KeyError\<close>.
\<close>

theorem ledger_keys_present:
  "edges_covered (run cmds) \<and>
   fst (inject_traffic_flow (run cmds) s d ty bw) \<noteq> InjectRaised KeyError \<and>
   fst (simulate_link_failure (run cmds) u v) \<noteq> FailRaised KeyError"
proof -
  have cov: "edges_covered (run cmds)" by (rule run_covered)
  have "fst (inject_traffic_flow (run cmds) s d ty bw) \<noteq> InjectRaised KeyError"
    using inject_props(3) [OF prod.collapse [symmetric] cov] .
  moreover have "fst (simulate_link_failure (run cmds) u v) \<noteq> FailRaised KeyError"
    using simulate_link_failure_props(1) [OF prod.collapse [symmetric] cov] by simp
  ultimately show ?thesis using cov by simp
qed

theorem ledger_keys_present_witness:
  "has_edge (topology (run triangle_flow_commands)) ''a'' ''b'' \<and>
   link_utilization (run triangle_flow_commands) (''a'', ''b'') \<noteq> None \<and>
   link_utilization (run triangle_flow_commands) (''b'', ''a'') \<noteq> None \<and>
   fst (inject_traffic_flow (run triangle_flow_commands) ''a'' ''c'' ''data'' 5)
     \<noteq> InjectRaised KeyError \<and>
   fst (simulate_link_failure (run triangle_flow_commands) ''a'' ''b'') \<noteq> FailRaised KeyError"
proof -
  have e: "has_edge (topology (run triangle_flow_commands)) ''a'' ''b''" by code_simp
  from ledger_keys_present [of triangle_flow_commands "''a''" "''c''" "''data''" 5 "''a''" "''b''"] e
  show ?thesis unfolding edges_covered_def by blast
qed

subsection \<open>Which flows a link failure processes (claim C4)\<close>




subsection \<open>Sign of the ledger values (claim C7)\<close>

text \<open>
  Claim C7, amended. After any sequence of commands from the empty controller that
  contains no link failure and admits only flows of non-negative bandwidth, every value
  stored in the ledger is non-negative.
\<close>

theorem ledger_nonneg_without_failure:
  assumes "list_all admission_only cmds" and "link_utilization (run cmds) k = Some x"
  shows "0 \<le> x"
proof -
  have "\<forall>k x. link_utilization new_controller k = Some x \<longrightarrow> 0 \<le> x"
    by (simp add: new_controller_def)
  from foldl_execute_nonneg [OF assms(1) this] assms(2) show ?thesis
    unfolding run_def by blast
qed

theorem ledger_nonneg_without_failure_witness:
  "list_all admission_only triangle_flow_commands \<and>
   link_utilization (run triangle_flow_commands) (''a'', ''b'') = Some 10 \<and>
   (0::int) \<le> 10"
proof -
  have h: "list_all admission_only triangle_flow_commands"
    "link_utilization (run triangle_flow_commands) (''a'', ''b'') = Some 10"
    by code_simp+
  from h ledger_nonneg_without_failure [OF h] show ?thesis by simp
qed

text \<open>
  Claim C7 as stated fails, with positive weights and a positive bandwidth: a flow of
  bandwidth 10 runs over [a, b, c]; the link b-c is removed and added again, which resets
  its entries to 0; failing the link a-b then releases the old path and leaves \<open>-10\<close>.
\<close>

theorem ledger_negative_after_failure:
  "link_utilization
     (run [AddNode ''a'', AddNode ''b'', AddNode ''c'',
           AddLink ''a'' ''b'' 1, AddLink ''b'' ''c'' 1,
           InjectTraffic ''a'' ''c'' ''data'' 10,
           RemoveLink ''b'' ''c'', AddLink ''b'' ''c'' 1,
           SimulateLinkFailure ''a'' ''b''])
     (''b'', ''c'') = Some (- 10)"
  by code_simp

end
